theory Spec2Isabelle
  imports Complex_Main "HOL-Library.Char_ord" "HOL-Library.List_Lexorder"
    "HOL-Library.Log_Nat"
begin

section \<open>JavaScript values\<close>

text \<open>
  A JavaScript \<open>number\<close> is a double (IEEE 754 binary64). A finite double is modelled
  by its value, a rational; the three special values stand by themselves. Negative zero is
  identified with zero: \<open>Number.isInteger\<close>, \<open><\<close>, \<open>>\<close>, \<open>===\<close> and the printing of a
  number do not tell them apart.
\<close>

datatype number = Finite rat | NaN | PosInfinity | NegInfinity

text \<open>
  The result of an arithmetic operation is the exact result rounded to the nearest double,
  ties to the even significand. For \<open>a > 0\<close>, \<open>binade a\<close> is the exponent \<open>e\<close> with
  \<open>2 ^ e \<le> a < 2 ^ (e + 1)\<close>. The doubles of that binade are the multiples of
  \<open>2 ^ (e - 52)\<close> (53 significant bits); below \<open>2 ^ (- 1022)\<close> they are the multiples of
  \<open>2 ^ (- 1074)\<close>; a result that rounds to \<open>2 ^ 1024\<close> or more is an infinity.
\<close>

definition pow2 :: "int \<Rightarrow> rat" where
  "pow2 e = (if 0 \<le> e then 2 ^ nat e else 1 / 2 ^ nat (- e))"

definition binade :: "rat \<Rightarrow> int" where
  "binade a = (if 1 \<le> a then bitlen \<lfloor>a\<rfloor> - 1 else - bitlen (\<lceil>1 / a\<rceil> - 1))"

definition round_half_even :: "rat \<Rightarrow> int" where
  "round_half_even x =
     (let f = \<lfloor>x\<rfloor>; d = x - of_int f
      in if d < 1 / 2 then f else if 1 / 2 < d then f + 1 else if even f then f else f + 1)"

definition to_double :: "rat \<Rightarrow> number" where
  "to_double x =
     (if x = 0 then Finite 0
      else
        let a = \<bar>x\<bar>;
            e = max (binade a) (- 1022);
            ulp = pow2 (e - 52);
            r = of_int (round_half_even (a / ulp)) * ulp
        in if pow2 1024 \<le> r then (if 0 < x then PosInfinity else NegInfinity)
           else Finite (if 0 < x then r else - r))"

text \<open>\<open>Number.isInteger\<close>.\<close>

fun isInteger :: "number \<Rightarrow> bool" where
  "isInteger (Finite q) = (of_int \<lfloor>q\<rfloor> = q)"
| "isInteger NaN = False"
| "isInteger PosInfinity = False"
| "isInteger NegInfinity = False"

text \<open>The comparison \<open>x < y\<close> of two numbers; \<open>x > y\<close> is \<open>js_less y x\<close>.\<close>

fun js_less :: "number \<Rightarrow> number \<Rightarrow> bool" where
  "js_less (Finite p) (Finite q) = (p < q)"
| "js_less (Finite p) PosInfinity = True"
| "js_less NegInfinity (Finite q) = True"
| "js_less NegInfinity PosInfinity = True"
| "js_less _ _ = False"

text \<open>Strict equality \<open>x === y\<close> of two numbers: \<open>NaN\<close> equals nothing.\<close>

definition js_strict_eq :: "number \<Rightarrow> number \<Rightarrow> bool" where
  "js_strict_eq x y = (x \<noteq> NaN \<and> x = y)"

text \<open>
  Adding a finite constant, in double arithmetic: \<open>n + 1\<close>, \<open>i + 1\<close>, \<open>i++\<close> and
  \<open>remainingJitterBits--\<close>.
\<close>

fun js_add :: "number \<Rightarrow> rat \<Rightarrow> number" where
  "js_add (Finite q) c = to_double (q + c)"
| "js_add NaN c = NaN"
| "js_add PosInfinity c = PosInfinity"
| "js_add NegInfinity c = NegInfinity"

text \<open>
  A bound is a key or absent (\<open>null\<close> or \<open>undefined\<close>). Reading an array at a number
  that is not one of its indices gives \<open>undefined\<close>, that is an absent bound.
\<close>

type_synonym bound = "string option"

definition js_index :: "string list \<Rightarrow> number \<Rightarrow> bound" where
  "js_index xs i =
     (case i of
        Finite q \<Rightarrow>
          if of_int \<lfloor>q\<rfloor> = q \<and> 0 \<le> q \<and> nat \<lfloor>q\<rfloor> < length xs then Some (xs ! nat \<lfloor>q\<rfloor>)
          else None
      | _ \<Rightarrow> None)"

section \<open>Effects\<close>

text \<open>
  The library has three effects: it draws random bits from a source that has a state of
  its own, it calls the two functions of \<open>fractional-indexing\<close>, and it throws. The
  world holds the state of the random-bit source and the trace of the draws and the calls
  made so far, oldest first. What is thrown is a value: an \<open>Error\<close> of this library with
  its message, or whatever a function of \<open>fractional-indexing\<close> throws.
\<close>

datatype event =
    RandomBit bool
  | KeyBetween bound bound "string option"
  | NKeysBetween bound bound number "string option"

record 's world =
  source :: 's
  trace :: "event list"

datatype 'e thrown = Error string | External 'e

text \<open>
  What the library takes from outside: the two functions of \<open>fractional-indexing\<close>
  (pure, they return a key or throw), \<open>Math.random() < 0.5\<close>, and the conversion of a
  number to a string that a template literal performs.
\<close>

record ('e, 's) env =
  unjitteredGenerateKeyBetween :: "bound \<Rightarrow> bound \<Rightarrow> string option \<Rightarrow> 'e + string"
  unjitteredGenerateNKeysBetween ::
    "bound \<Rightarrow> bound \<Rightarrow> number \<Rightarrow> string option \<Rightarrow> 'e + string list"
  DEFAULT_GET_RANDOM_BIT :: "'s \<Rightarrow> bool \<times> 's"
  toString :: "number \<Rightarrow> string"

record 's options =
  digits :: "string option"
  jitterBits :: "number option"
  getRandomBit :: "('s \<Rightarrow> bool \<times> 's) option"

definition DEFAULT_JITTER_BITS :: number where
  "DEFAULT_JITTER_BITS = Finite 30"

text \<open>\<open>opts ?? {}\<close>.\<close>

definition opts_or_empty :: "'s options option \<Rightarrow> 's options" where
  "opts_or_empty opts =
     (case opts of
        None \<Rightarrow> \<lparr>digits = None, jitterBits = None, getRandomBit = None\<rparr>
      | Some x \<Rightarrow> x)"

text \<open>One call of the random-bit source.\<close>

definition draw :: "('s \<Rightarrow> bool \<times> 's) \<Rightarrow> 's world \<Rightarrow> bool \<times> 's world" where
  "draw g w =
     (case g (source w) of
        (drawn, st) \<Rightarrow> (drawn, \<lparr>source = st, trace = trace w @ [RandomBit drawn]\<rparr>))"

text \<open>One call of each function of \<open>fractional-indexing\<close>.\<close>

definition call_key ::
  "('e, 's) env \<Rightarrow> bound \<Rightarrow> bound \<Rightarrow> string option \<Rightarrow> 's world
     \<Rightarrow> ('e thrown + string) \<times> 's world" where
  "call_key env a b dg w =
     (map_sum External id (unjitteredGenerateKeyBetween env a b dg),
      w\<lparr>trace := trace w @ [KeyBetween a b dg]\<rparr>)"

definition call_nkeys ::
  "('e, 's) env \<Rightarrow> bound \<Rightarrow> bound \<Rightarrow> number \<Rightarrow> string option \<Rightarrow> 's world
     \<Rightarrow> ('e thrown + string list) \<times> 's world" where
  "call_nkeys env a b n dg w =
     (map_sum External id (unjitteredGenerateNKeysBetween env a b n dg),
      w\<lparr>trace := trace w @ [NKeysBetween a b n dg]\<rparr>)"

section \<open>The parameter validator\<close>

definition integer_message :: "(number \<Rightarrow> string) \<Rightarrow> string \<Rightarrow> number \<Rightarrow> string" where
  "integer_message str paramName n =
     [CHR 0x22] @ paramName @ [CHR 0x22] @ '' must be an integer, got '' @
     [CHR 0x27] @ str n @ [CHR 0x27]"

definition negative_message :: "(number \<Rightarrow> string) \<Rightarrow> string \<Rightarrow> number \<Rightarrow> string" where
  "negative_message str paramName n =
     [CHR 0x22] @ paramName @ [CHR 0x22] @
     '' must be greater than or equal to 0, got '' @
     [CHR 0x27] @ str n @ [CHR 0x27]"

definition assertIsPositiveInteger ::
  "(number \<Rightarrow> string) \<Rightarrow> string \<Rightarrow> number \<Rightarrow> 'e thrown + unit" where
  "assertIsPositiveInteger str paramName n =
     (if \<not> isInteger n then Inl (Error (integer_message str paramName n))
      else if js_less n (Finite 0) then Inl (Error (negative_message str paramName n))
      else Inr ())"

section \<open>The single-key engine\<close>

record loop_state =
  remainingJitterBits :: number
  low :: bound
  high :: bound
  midpoint :: string

text \<open>The body of the \<open>while\<close> loop of \<open>generateKeyBetween\<close>.\<close>

definition loop_body ::
  "('e, 's) env \<Rightarrow> ('s \<Rightarrow> bool \<times> 's) \<Rightarrow> string option \<Rightarrow> loop_state \<Rightarrow> 's world
     \<Rightarrow> ('e thrown + loop_state) \<times> 's world" where
  "loop_body env g dg s w =
     (case draw g w of
        (drawn, w1) \<Rightarrow>
          (let randomBit = (if drawn then 1 else 0 :: nat);
               s1 = (if randomBit = 1 then s\<lparr>low := Some (midpoint s)\<rparr>
                     else s\<lparr>high := Some (midpoint s)\<rparr>)
           in case call_key env (low s1) (high s1) dg w1 of
                (Inl e, w2) \<Rightarrow> (Inl e, w2)
              | (Inr m, w2) \<Rightarrow>
                  (Inr (s1\<lparr>midpoint := m,
                           remainingJitterBits := js_add (remainingJitterBits s1) (- 1)\<rparr>),
                   w2)))"

text \<open>
  The \<open>while\<close> loop. It runs as long as the counter is positive, so on a counter that
  never reaches zero (\<open>Infinity\<close>, or an integer so large that the decrement rounds back
  to it) it does not return: the result \<open>None\<close>.
\<close>

partial_function (option) while_loop ::
  "('e, 's) env \<Rightarrow> ('s \<Rightarrow> bool \<times> 's) \<Rightarrow> string option \<Rightarrow> loop_state \<Rightarrow> 's world
     \<Rightarrow> (('e thrown + loop_state) \<times> 's world) option" where
  "while_loop env g dg s w =
     (if js_less (Finite 0) (remainingJitterBits s) then
        (case loop_body env g dg s w of
           (Inl e, w') \<Rightarrow> Some (Inl e, w')
         | (Inr s', w') \<Rightarrow> while_loop env g dg s' w')
      else Some (Inr s, w))"

declare while_loop.simps [code]

text \<open>
  The destructuring \<open>const {digits, jitterBits = DEFAULT_JITTER_BITS, getRandomBit =
  DEFAULT_GET_RANDOM_BIT} = opts ?? {}\<close>: a default stands in for a missing property.
\<close>

definition opt_digits :: "'s options option \<Rightarrow> string option" where
  "opt_digits opts = digits (opts_or_empty opts)"

definition opt_jitterBits :: "'s options option \<Rightarrow> number" where
  "opt_jitterBits opts =
     (case jitterBits (opts_or_empty opts) of None \<Rightarrow> DEFAULT_JITTER_BITS | Some j \<Rightarrow> j)"

definition opt_getRandomBit :: "('e, 's) env \<Rightarrow> 's options option \<Rightarrow> 's \<Rightarrow> bool \<times> 's" where
  "opt_getRandomBit env opts =
     (case getRandomBit (opts_or_empty opts) of
        None \<Rightarrow> DEFAULT_GET_RANDOM_BIT env | Some f \<Rightarrow> f)"

definition generateKeyBetween ::
  "('e, 's) env \<Rightarrow> bound \<Rightarrow> bound \<Rightarrow> 's options option \<Rightarrow> 's world
     \<Rightarrow> (('e thrown + string) \<times> 's world) option" where
  "generateKeyBetween env a b opts w =
     (let dg = opt_digits opts;
          jb = opt_jitterBits opts;
          g = opt_getRandomBit env opts
      in case assertIsPositiveInteger (toString env) ''jitterBits'' jb of
           Inl e \<Rightarrow> Some (Inl e, w)
         | Inr _ \<Rightarrow>
             (case call_key env a b dg w of
                (Inl e, w1) \<Rightarrow> Some (Inl e, w1)
              | (Inr m, w1) \<Rightarrow>
                  (case while_loop env g dg
                          \<lparr>remainingJitterBits = jb, low = a, high = b, midpoint = m\<rparr> w1 of
                     None \<Rightarrow> None
                   | Some (Inl e, w2) \<Rightarrow> Some (Inl e, w2)
                   | Some (Inr s, w2) \<Rightarrow> Some (Inr (midpoint s), w2))))"

section \<open>The batch engine\<close>

text \<open>
  The \<open>for\<close> loop of \<open>generateNKeysBetween\<close>, from the index \<open>i\<close> (a number, as the
  counter of the \<open>while\<close> loop is) and the keys pushed so far. It runs as long as
  \<open>i < n\<close>.
\<close>

partial_function (option) for_loop ::
  "('e, 's) env \<Rightarrow> string list \<Rightarrow> number \<Rightarrow> 's options option \<Rightarrow> number \<Rightarrow> string list
     \<Rightarrow> 's world \<Rightarrow> (('e thrown + string list) \<times> 's world) option" where
  "for_loop env keys n opts i jitteredKeys w =
     (if js_less i n then
        (case generateKeyBetween env (js_index keys i) (js_index keys (js_add i 1)) opts w of
           None \<Rightarrow> None
         | Some (Inl e, w') \<Rightarrow> Some (Inl e, w')
         | Some (Inr k, w') \<Rightarrow> for_loop env keys n opts (js_add i 1) (jitteredKeys @ [k]) w')
      else Some (Inr jitteredKeys, w))"

declare for_loop.simps [code]

definition generateNKeysBetween ::
  "('e, 's) env \<Rightarrow> bound \<Rightarrow> bound \<Rightarrow> number \<Rightarrow> 's options option \<Rightarrow> 's world
     \<Rightarrow> (('e thrown + string list) \<times> 's world) option" where
  "generateNKeysBetween env a b n opts w =
     (let dg = digits (opts_or_empty opts);
          jb = jitterBits (opts_or_empty opts)
      in case assertIsPositiveInteger (toString env) ''n'' n of
           Inl e \<Rightarrow> Some (Inl e, w)
         | Inr _ \<Rightarrow>
             if js_strict_eq n (Finite 0) then Some (Inr [], w)
             else if (case jb of None \<Rightarrow> False | Some j \<Rightarrow> js_strict_eq j (Finite 0))
             then Some (call_nkeys env a b n dg w)
             else
               (case call_nkeys env a b (js_add n 1) dg w of
                  (Inl e, w1) \<Rightarrow> Some (Inl e, w1)
                | (Inr keys, w1) \<Rightarrow> for_loop env keys n opts (Finite 0) [] w1))"

section \<open>What is assumed of \<open>fractional-indexing\<close>\<close>

text \<open>
  Keys are compared as JavaScript compares strings: lexicographically, character by
  character. An absent lower bound is below every key and an absent upper bound above.
\<close>

definition between :: "bound \<Rightarrow> string \<Rightarrow> bound \<Rightarrow> bool" where
  "between a k b =
     ((case a of None \<Rightarrow> True | Some x \<Rightarrow> x < k) \<and>
      (case b of None \<Rightarrow> True | Some y \<Rightarrow> k < y))"

definition ordered :: "bound \<Rightarrow> bound \<Rightarrow> bool" where
  "ordered a b = (case a of None \<Rightarrow> True | Some x \<Rightarrow> (case b of None \<Rightarrow> True | Some y \<Rightarrow> x < y))"

definition valid_bound :: "(string \<Rightarrow> bool) \<Rightarrow> bound \<Rightarrow> bool" where
  "valid_bound V a = (case a of None \<Rightarrow> True | Some x \<Rightarrow> V x)"

text \<open>The lower bound \<open>a\<close> is at or below the lower bound \<open>a'\<close>.\<close>

definition lower_le :: "bound \<Rightarrow> bound \<Rightarrow> bool" where
  "lower_le a a' =
     (case a of None \<Rightarrow> True | Some x \<Rightarrow> (case a' of None \<Rightarrow> False | Some x' \<Rightarrow> x \<le> x'))"

text \<open>The upper bound \<open>b'\<close> is at or below the upper bound \<open>b\<close>.\<close>

definition upper_le :: "bound \<Rightarrow> bound \<Rightarrow> bool" where
  "upper_le b' b =
     (case b of None \<Rightarrow> True | Some y \<Rightarrow> (case b' of None \<Rightarrow> False | Some y' \<Rightarrow> y' \<le> y))"

text \<open>
  The order of strings is not dense (nothing lies between \<open>x\<close> and \<open>x\<close> followed by
  the least character), so no function returns a key between any two strings: the
  library \<open>fractional-indexing\<close> accepts the keys of its own format only, and throws on
  bounds that are not in order. The contract of its single-key function, for the set \<open>V\<close>
  of keys it accepts with the alphabet \<open>dg\<close>: given bounds that are absent or in \<open>V\<close>,
  and in order, it returns a key of \<open>V\<close> strictly between them.
\<close>

definition key_contract ::
  "(string \<Rightarrow> bool) \<Rightarrow> string option \<Rightarrow> (bound \<Rightarrow> bound \<Rightarrow> string option \<Rightarrow> 'e + string)
     \<Rightarrow> bool" where
  "key_contract V dg f =
     (\<forall>a b. valid_bound V a \<and> valid_bound V b \<and> ordered a b \<longrightarrow>
        (\<exists>k. f a b dg = Inr k \<and> V k \<and> between a k b))"

text \<open>
  The contract of its batch function: for a count \<open>m\<close> it returns \<open>m\<close> keys of \<open>V\<close>,
  strictly increasing, each strictly between the bounds.
\<close>

definition batch_contract ::
  "(string \<Rightarrow> bool) \<Rightarrow> string option
     \<Rightarrow> (bound \<Rightarrow> bound \<Rightarrow> number \<Rightarrow> string option \<Rightarrow> 'e + string list) \<Rightarrow> bool" where
  "batch_contract V dg f =
     (\<forall>a b m. valid_bound V a \<and> valid_bound V b \<and> ordered a b \<longrightarrow>
        (\<exists>ks. f a b (Finite (of_nat m)) dg = Inr ks \<and> length ks = m \<and>
           sorted_wrt (<) ks \<and> (\<forall>k \<in> set ks. V k \<and> between a k b)))"

section \<open>The narrowing loop, step by step\<close>

text \<open>
  The states of the \<open>while\<close> loop at its head: the state the loop starts in, and the
  state after each iteration that the loop condition lets in and that does not throw.
\<close>

inductive loop_reaches ::
  "('e, 's) env \<Rightarrow> ('s \<Rightarrow> bool \<times> 's) \<Rightarrow> string option \<Rightarrow> loop_state \<Rightarrow> 's world
     \<Rightarrow> loop_state \<Rightarrow> 's world \<Rightarrow> bool"
  for env g dg s0 w0 where
    start: "loop_reaches env g dg s0 w0 s0 w0"
  | iteration:
      "loop_reaches env g dg s0 w0 s w \<Longrightarrow> js_less (Finite 0) (remainingJitterBits s) \<Longrightarrow>
       loop_body env g dg s w = (Inr s', w') \<Longrightarrow> loop_reaches env g dg s0 w0 s' w'"

text \<open>
  The working interval is well formed: its bounds are keys that \<open>fractional-indexing\<close>
  accepts, and the current midpoint is such a key, strictly between them.
\<close>

definition interval_ok :: "(string \<Rightarrow> bool) \<Rightarrow> loop_state \<Rightarrow> bool" where
  "interval_ok V s =
     (valid_bound V (low s) \<and> valid_bound V (high s) \<and> V (midpoint s) \<and>
      between (low s) (midpoint s) (high s))"

text \<open>
  The narrowing as the specification words it (4.2, steps 4 and 5): repeat exactly
  \<open>jitterBits\<close> times: draw one boolean; if true, set the lower bound of the working
  interval to the current midpoint, if false, set the upper bound to it; recompute the
  midpoint of the new interval with the unjittered primitive. Return the midpoint reached
  after the final iteration.
\<close>

fun spec_narrow ::
  "('e, 's) env \<Rightarrow> ('s \<Rightarrow> bool \<times> 's) \<Rightarrow> string option \<Rightarrow> nat \<Rightarrow> bound \<Rightarrow> bound \<Rightarrow> string
     \<Rightarrow> 's world \<Rightarrow> ('e thrown + string) \<times> 's world" where
  "spec_narrow env g dg 0 lo hi m w = (Inr m, w)"
| "spec_narrow env g dg (Suc j) lo hi m w =
     (case draw g w of
        (drawn, w1) \<Rightarrow>
          (let lo' = (if drawn then Some m else lo);
               hi' = (if drawn then hi else Some m)
           in case call_key env lo' hi' dg w1 of
                (Inl e, w2) \<Rightarrow> (Inl e, w2)
              | (Inr m', w2) \<Rightarrow> spec_narrow env g dg j lo' hi' m' w2))"

section \<open>The options of a call, and the draws of a source\<close>

text \<open>
  What the caller passed as options: the three properties, each present or missing. No
  options at all is the same as none of the three.
\<close>

definition options_are ::
  "'s options option \<Rightarrow> string option \<Rightarrow> number option \<Rightarrow> ('s \<Rightarrow> bool \<times> 's) option \<Rightarrow> bool" where
  "options_are opts dg jb g =
     (case opts of
        None \<Rightarrow> dg = None \<and> jb = None \<and> g = None
      | Some x \<Rightarrow> digits x = dg \<and> jitterBits x = jb \<and> getRandomBit x = g)"

text \<open>The bits that the trace says were drawn, in order.\<close>

fun bits_of :: "event list \<Rightarrow> bool list" where
  "bits_of [] = []"
| "bits_of (RandomBit x # es) = x # bits_of es"
| "bits_of (KeyBetween a b dg # es) = bits_of es"
| "bits_of (NKeysBetween a b n dg # es) = bits_of es"

definition draws :: "event list \<Rightarrow> nat" where
  "draws es = length (bits_of es)"

text \<open>
  Calling the source \<open>g\<close> exactly \<open>j\<close> times in a row from the state \<open>st\<close>: the bits it
  returns, in order, and the state it is left in.
\<close>

fun source_run :: "('s \<Rightarrow> bool \<times> 's) \<Rightarrow> nat \<Rightarrow> 's \<Rightarrow> bool list \<times> 's" where
  "source_run g 0 st = ([], st)"
| "source_run g (Suc j) st =
     (case g st of
        (x, st1) \<Rightarrow> (case source_run g j st1 of (xs, st2) \<Rightarrow> (x # xs, st2)))"

section \<open>A concrete environment\<close>

text \<open>
  A small instance of the outside world, to run the library on. An alphabet is two
  characters, the lesser first; without one it is \<open>0\<close> and \<open>1\<close>. Keys are the strings
  over the alphabet that end in its greater character; the key between two bounds is the
  lower bound followed by as many of the lesser character as the upper bound is long, and
  the greater character; a batch is made key after key. The random-bit source given in the
  options is the counter of the test file, which answers \<open>true\<close> on every second call;
  the default source is another one. A number is printed as the test file expects it.
\<close>

definition alphabet :: "string option \<Rightarrow> (char \<times> char) option" where
  "alphabet dg =
     (case dg of
        None \<Rightarrow> Some (CHR ''0'', CHR ''1'')
      | Some [z, c] \<Rightarrow> if z < c then Some (z, c) else None
      | Some _ \<Rightarrow> None)"

definition bin_key :: "string option \<Rightarrow> string \<Rightarrow> bool" where
  "bin_key dg k =
     (case alphabet dg of
        None \<Rightarrow> False
      | Some (z, c) \<Rightarrow> k \<noteq> [] \<and> set k \<subseteq> {z, c} \<and> last k = c)"

definition bin_between :: "bound \<Rightarrow> bound \<Rightarrow> string option \<Rightarrow> unit + string" where
  "bin_between a b dg =
     (case alphabet dg of
        None \<Rightarrow> Inl ()
      | Some (z, c) \<Rightarrow>
          Inr ((case a of None \<Rightarrow> [] | Some x \<Rightarrow> x) @
               replicate (case b of None \<Rightarrow> 0 | Some y \<Rightarrow> length y) z @ [c]))"

fun bin_batch :: "bound \<Rightarrow> bound \<Rightarrow> nat \<Rightarrow> string option \<Rightarrow> string list" where
  "bin_batch a b 0 dg = []"
| "bin_batch a b (Suc m) dg =
     (case bin_between a b dg of
        Inl _ \<Rightarrow> []
      | Inr k \<Rightarrow> k # bin_batch (Some k) b m dg)"

definition bin_nkeys :: "bound \<Rightarrow> bound \<Rightarrow> number \<Rightarrow> string option \<Rightarrow> unit + string list" where
  "bin_nkeys a b n dg =
     (case n of
        Finite q \<Rightarrow>
          if of_int \<lfloor>q\<rfloor> = q \<and> 0 \<le> q \<and> alphabet dg \<noteq> None
          then Inr (bin_batch a b (nat \<lfloor>q\<rfloor>) dg) else Inl ()
      | _ \<Rightarrow> Inl ())"

definition deterministicRandom :: "nat \<Rightarrow> bool \<times> nat" where
  "deterministicRandom callCount = (even (callCount + 1), callCount + 1)"

definition defaultRandom :: "nat \<Rightarrow> bool \<times> nat" where
  "defaultRandom st = (True, st + 100)"

definition print_number :: "number \<Rightarrow> string" where
  "print_number n =
     (if n = Finite (7 / 2) then ''3.5''
      else if n = Finite (- 1) then ''-1''
      else if n = Finite (37 / 10) then ''3.7''
      else if n = Finite (- 3 / 2) then ''-1.5''
      else ''?'')"

definition bin_env :: "(unit, nat) env" where
  "bin_env =
     \<lparr>unjitteredGenerateKeyBetween = bin_between,
      unjitteredGenerateNKeysBetween = bin_nkeys,
      DEFAULT_GET_RANDOM_BIT = defaultRandom,
      toString = print_number\<rparr>"


text \<open>Options with the alphabet \<open>a\<close>, \<open>b\<close> and a number of jitter bits.\<close>

definition ab_opts :: "rat \<Rightarrow> nat options option" where
  "ab_opts q =
     Some \<lparr>digits = Some ''ab'', jitterBits = Some (Finite q),
           getRandomBit = Some deterministicRandom\<rparr>"

definition world0 :: "nat world" where
  "world0 = \<lparr>source = 0, trace = []\<rparr>"

section \<open>Double arithmetic: lemmas\<close>

lemma round_half_even_int [simp]: "round_half_even (of_int i) = i"
  by (simp add: round_half_even_def)

lemma to_double_exact:
  assumes "\<bar>i\<bar> \<le> 2 ^ 53"
  shows "to_double (of_int i) = Finite (of_int i)"
proof (cases "i = 0")
  case True
  then show ?thesis by (simp add: to_double_def)
next
  case False
  define a where "a = \<bar>i\<bar>"
  have a: "0 < a" "a \<le> 2 ^ 53" using False assms by (simp_all add: a_def)
  define e where "e = bitlen a - 1"
  from bitlen_bounds [OF a(1)] have b: "2 ^ nat e \<le> a" "a < 2 ^ nat (e + 1)"
    by (simp_all add: e_def)
  have e0: "0 \<le> e" using a(1) by (simp add: e_def bitlen_alt_def)
  have "(2::int) ^ nat e \<le> 2 ^ 53" using b(1) a(2) by linarith
  then have e53: "nat e \<le> 53" by (rule power_le_imp_le_exp [rotated]) simp
  have bin: "binade (of_int a) = e"
    using a(1) by (simp add: binade_def e_def)
  have m: "max e (- 1022) = e" using e0 by simp
  have ex: "\<exists>k. of_int a / pow2 (e - 52) = (of_int k :: rat) \<and> of_int k * pow2 (e - 52) = (of_int a :: rat)"
  proof (cases "52 \<le> e")
    case True
    then have "e = 52 \<or> e = 53" using e53 by linarith
    then show ?thesis
    proof
      assume "e = 52" then show ?thesis by (simp add: pow2_def)
    next
      assume e: "e = 53"
      with b(1) a(2) have "a = 2 ^ 53" by (simp add: nat_numeral)
      then show ?thesis
        by (intro exI [of _ "2 ^ 52"]) (simp add: e pow2_def)
    qed
  next
    case False
    then have p: "pow2 (e - 52) = 1 / 2 ^ nat (52 - e)"
      by (simp add: pow2_def)
    show ?thesis
      by (intro exI [of _ "a * 2 ^ nat (52 - e)"]) (simp add: p)
  qed
  then obtain k where k: "of_int a / pow2 (e - 52) = (of_int k :: rat)" "of_int k * pow2 (e - 52) = (of_int a :: rat)"
    by blast
  have lt: "\<not> pow2 1024 \<le> (of_int a :: rat)"
  proof -
    have "(of_int a :: rat) \<le> 2 ^ 53" using a(2) by (metis of_int_le_iff of_int_numeral of_int_power)
    moreover have "(2::rat) ^ 53 < 2 ^ 1024" by simp
    ultimately show ?thesis by (simp add: pow2_def)
  qed
  have abs: "\<bar>(of_int i :: rat)\<bar> = of_int a" by (simp add: a_def)
  show ?thesis
    using False lt
    by (simp add: to_double_def abs bin m k Let_def del: of_int_abs) (simp add: a_def)
qed

text \<open>Up to \<open>2 ^ 53\<close> the counters move by exactly one.\<close>

lemma js_add_dec:
  "Suc j \<le> 2 ^ 53 \<Longrightarrow> js_add (Finite (of_nat (Suc j))) (- 1) = Finite (of_nat j)"
  using to_double_exact [of "int j"] by simp

lemma js_add_inc:
  "Suc i \<le> 2 ^ 53 \<Longrightarrow> js_add (Finite (of_nat i)) 1 = Finite (of_nat (Suc i))"
  using to_double_exact [of "int (Suc i)"] by (simp add: add.commute)

text \<open>
  Above \<open>2 ^ 53\<close> the doubles are the even integers, and a counter rounds: a tie goes
  to the even significand.
\<close>

lemma binade_int:
  assumes "(2::int) ^ n \<le> k" "k < 2 ^ Suc n"
  shows "binade (of_int k) = int n"
proof -
  have k: "0 < k"
    using assms(1) by (smt (verit) zero_less_power)
  from bitlen_bounds [OF k] have b: "2 ^ nat (bitlen k - 1) \<le> k" "k < 2 ^ nat (bitlen k)"
    by simp_all
  have "(2::int) ^ nat (bitlen k - 1) < 2 ^ Suc n"
    using b(1) assms(2) by linarith
  then have u: "nat (bitlen k - 1) < Suc n"
    by (rule power_less_imp_less_exp [rotated]) simp
  have "(2::int) ^ n < 2 ^ nat (bitlen k)"
    using b(2) assms(1) by linarith
  then have l: "n < nat (bitlen k)"
    by (rule power_less_imp_less_exp [rotated]) simp
  from u l have "bitlen k = int n + 1"
    by linarith
  moreover have "(1::rat) \<le> of_int k"
    using k by simp
  ultimately show ?thesis
    by (simp add: binade_def)
qed

lemma round_half_even_tie: "round_half_even (of_int f + 1 / 2) = (if even f then f else f + 1)"
proof -
  have "\<lfloor>(of_int f + 1 / 2 :: rat)\<rfloor> = f"
    by (simp add: floor_eq_iff)
  then show ?thesis
    by (simp add: round_half_even_def)
qed

lemma round_half_even_le: "of_int (round_half_even x) \<le> x + 1"
proof -
  have f: "of_int \<lfloor>x\<rfloor> \<le> x"
    by (rule of_int_floor_le)
  then have "of_int \<lfloor>x\<rfloor> \<le> x + 1"
    by linarith
  moreover from f have "of_int (\<lfloor>x\<rfloor> + 1) \<le> x + 1"
    by simp
  ultimately show ?thesis
    unfolding round_half_even_def Let_def by presburger
qed

lemma to_double_binade53:
  assumes "(2::int) ^ 53 \<le> k" "k < 2 ^ 54"
  shows "to_double (of_int k) = Finite (of_int (round_half_even (of_int k / 2)) * 2)"
proof -
  have b: "binade (of_int k) = 53"
    using binade_int [of 53 k] assms by simp
  have k: "0 < k" using assms(1) by simp
  have "of_int (round_half_even (of_int k / 2)) * 2 \<le> (of_int k / 2 + 1) * (2::rat)"
    using round_half_even_le [of "of_int k / 2"] by simp
  also have "\<dots> = of_int k + 2" by simp
  also have "\<dots> < 2 ^ 1024"
  proof -
    have "(of_int k :: rat) < 2 ^ 54" using assms(2) by (metis of_int_less_iff of_int_numeral of_int_power)
    then show ?thesis by simp
  qed
  finally have "\<not> pow2 1024 \<le> of_int (round_half_even (of_int k / 2)) * 2"
    by (simp add: pow2_def)
  then show ?thesis
    using k by (simp add: to_double_def b pow2_def Let_def)
qed

lemma to_double_tie_up: "to_double (2 ^ 53 + 3) = Finite (2 ^ 53 + 4)"
  using to_double_binade53 [of "2 ^ 53 + 3"] round_half_even_tie [of "2 ^ 52 + 1"]
  by simp

lemma to_double_tie_down: "to_double (2 ^ 53 + 1) = Finite (2 ^ 53)"
  using to_double_binade53 [of "2 ^ 53 + 1"] round_half_even_tie [of "2 ^ 52"]
  by simp

lemma js_add_rounds:
  "js_add (Finite (2 ^ 53 + 4)) (- 1) = Finite (2 ^ 53 + 4)"
  "js_add (Finite (2 ^ 53 + 2)) (- 1) = Finite (2 ^ 53)"
  "js_add (Finite (2 ^ 53)) 1 = Finite (2 ^ 53)"
  using to_double_tie_up to_double_tie_down by simp_all

lemma js_index_nat:
  "js_index xs (Finite (of_nat i)) = (if i < length xs then Some (xs ! i) else None)"
  by (simp add: js_index_def)

section \<open>The validator: lemmas\<close>

lemma messages_differ: "integer_message str p n \<noteq> negative_message str' p n'"
  by (simp add: integer_message_def negative_message_def)

section \<open>The narrowing loop: lemmas\<close>

lemma lower_le_refl: "lower_le a a"
  by (simp add: lower_le_def split: option.splits)

lemma upper_le_refl: "upper_le b b"
  by (simp add: upper_le_def split: option.splits)

lemma lower_le_trans: "lower_le a b \<Longrightarrow> lower_le b c \<Longrightarrow> lower_le a c"
  by (auto simp: lower_le_def split: option.splits)

lemma upper_le_trans: "upper_le a b \<Longrightarrow> upper_le b c \<Longrightarrow> upper_le a c"
  by (auto simp: upper_le_def split: option.splits)

lemma between_widen:
  "between a' k b' \<Longrightarrow> lower_le a a' \<Longrightarrow> upper_le b' b \<Longrightarrow> between a k b"
  by (auto simp: between_def lower_le_def upper_le_def split: option.splits)

lemma loop_body_drawn:
  "loop_body env g dg s w =
     (let drawn = fst (g (source w));
          w1 = \<lparr>source = snd (g (source w)), trace = trace w @ [RandomBit drawn]\<rparr>;
          lo = (if drawn then Some (midpoint s) else low s);
          hi = (if drawn then high s else Some (midpoint s));
          w2 = w1\<lparr>trace := trace w1 @ [KeyBetween lo hi dg]\<rparr>
      in case unjitteredGenerateKeyBetween env lo hi dg of
           Inl e \<Rightarrow> (Inl (External e), w2)
         | Inr m \<Rightarrow> (Inr \<lparr>remainingJitterBits = js_add (remainingJitterBits s) (- 1),
                           low = lo, high = hi, midpoint = m\<rparr>, w2))"
  by (cases "g (source w)"; cases s)
     (auto simp: loop_body_def draw_def call_key_def Let_def split: sum.splits)

lemma loop_body_ok:
  assumes c: "key_contract V dg (unjitteredGenerateKeyBetween env)"
      and i: "interval_ok V s"
  shows "\<exists>s' w'. loop_body env g dg s w = (Inr s', w') \<and> interval_ok V s' \<and>
           lower_le (low s) (low s') \<and> upper_le (high s') (high s) \<and>
           remainingJitterBits s' = js_add (remainingJitterBits s) (- 1)"
proof -
  define drawn where "drawn = fst (g (source w))"
  define lo where "lo = (if drawn then Some (midpoint s) else low s)"
  define hi where "hi = (if drawn then high s else Some (midpoint s))"
  from i have vlo: "valid_bound V lo" and vhi: "valid_bound V hi" and ord: "ordered lo hi"
    by (auto simp: interval_ok_def lo_def hi_def valid_bound_def ordered_def between_def
             split: option.splits)
  from i have nest: "lower_le (low s) lo" "upper_le hi (high s)"
    by (auto simp: interval_ok_def lo_def hi_def lower_le_def upper_le_def between_def
             split: option.splits)
  from c vlo vhi ord obtain k where
    k: "unjitteredGenerateKeyBetween env lo hi dg = Inr k" "V k" "between lo k hi"
    unfolding key_contract_def by blast
  show ?thesis
    using k vlo vhi nest
    by (simp add: loop_body_drawn Let_def interval_ok_def flip: drawn_def lo_def hi_def)
qed


lemma while_loop_stop:
  "\<not> js_less (Finite 0) (remainingJitterBits s) \<Longrightarrow> while_loop env g dg s w = Some (Inr s, w)"
  by (subst while_loop.simps) simp

lemma while_loop_step:
  "js_less (Finite 0) (remainingJitterBits s) \<Longrightarrow>
     while_loop env g dg s w =
       (case loop_body env g dg s w of
           (Inl e, w') \<Rightarrow> Some (Inl e, w')
         | (Inr s', w') \<Rightarrow> while_loop env g dg s' w')"
  by (subst while_loop.simps) simp

lemma while_loop_ok:
  assumes c: "key_contract V dg (unjitteredGenerateKeyBetween env)"
  shows "interval_ok V s \<Longrightarrow> remainingJitterBits s = Finite (of_nat j) \<Longrightarrow> j \<le> 2 ^ 53 \<Longrightarrow>
         \<exists>s' w'. while_loop env g dg s w = Some (Inr s', w') \<and> interval_ok V s' \<and>
           lower_le (low s) (low s') \<and> upper_le (high s') (high s)"
proof (induction j arbitrary: s w)
  case 0
  then show ?case
    by (simp add: while_loop_stop lower_le_refl upper_le_refl)
next
  case (Suc j)
  from loop_body_ok [OF c Suc.prems(1), of g w] obtain s1 w1 where
    b: "loop_body env g dg s w = (Inr s1, w1)" "interval_ok V s1"
       "lower_le (low s) (low s1)" "upper_le (high s1) (high s)"
       "remainingJitterBits s1 = js_add (remainingJitterBits s) (- 1)"
    by blast
  have r: "remainingJitterBits s1 = Finite (of_nat j)"
    unfolding b(5) Suc.prems(2) using Suc.prems(3) by (rule js_add_dec)
  from Suc.prems(3) have jb: "j \<le> 2 ^ 53"
    by simp
  from Suc.IH [OF b(2) r jb, of w1] obtain s' w' where
    l: "while_loop env g dg s1 w1 = Some (Inr s', w')" "interval_ok V s'"
       "lower_le (low s1) (low s')" "upper_le (high s') (high s1)"
    by blast
  have "while_loop env g dg s w = Some (Inr s', w')"
    using Suc.prems(2) b(1) l(1) by (simp add: while_loop_step)
  with l b show ?case
    by (blast intro: lower_le_trans upper_le_trans)
qed

lemma generateKeyBetween_ok:
  assumes c: "key_contract V (opt_digits opts) (unjitteredGenerateKeyBetween env)"
      and v: "valid_bound V a" "valid_bound V b" "ordered a b"
      and j: "opt_jitterBits opts = Finite (of_nat j)" "j \<le> 2 ^ 53"
  shows "\<exists>k w'. generateKeyBetween env a b opts w = Some (Inr k, w') \<and> V k \<and> between a k b"
proof -
  from c v obtain m where
    m: "unjitteredGenerateKeyBetween env a b (opt_digits opts) = Inr m" "V m" "between a m b"
    unfolding key_contract_def by blast
  define s0 where "s0 = \<lparr>remainingJitterBits = opt_jitterBits opts, low = a, high = b, midpoint = m\<rparr>"
  define w1 where "w1 = w\<lparr>trace := trace w @ [KeyBetween a b (opt_digits opts)]\<rparr>"
  have i: "interval_ok V s0" and r: "remainingJitterBits s0 = Finite (of_nat j)"
    using m v j by (simp_all add: interval_ok_def s0_def)
  from while_loop_ok [OF c i r j(2), of "opt_getRandomBit env opts" w1] obtain s' w' where
    l: "while_loop env (opt_getRandomBit env opts) (opt_digits opts) s0 w1 = Some (Inr s', w')"
       "interval_ok V s'" "lower_le (low s0) (low s')" "upper_le (high s') (high s0)"
    by blast
  have "generateKeyBetween env a b opts w = Some (Inr (midpoint s'), w')"
    using m(1) l(1) j
    by (simp add: generateKeyBetween_def Let_def assertIsPositiveInteger_def call_key_def
                  s0_def w1_def)
  moreover have "V (midpoint s')" "between a (midpoint s') b"
    using l(2-4) between_widen [of "low s'" "midpoint s'" "high s'" a b]
    by (simp_all add: interval_ok_def s0_def)
  ultimately show ?thesis by blast
qed

lemma loop_body_fields:
  "loop_body env g dg \<lparr>remainingJitterBits = r, low = lo, high = hi, midpoint = m\<rparr> w =
     (case draw g w of
        (drawn, w1) \<Rightarrow>
          (case call_key env (if drawn then Some m else lo) (if drawn then hi else Some m) dg w1 of
             (Inl e, w2) \<Rightarrow> (Inl e, w2)
           | (Inr k, w2) \<Rightarrow>
               (Inr \<lparr>remainingJitterBits = js_add r (- 1),
                     low = (if drawn then Some m else lo),
                     high = (if drawn then hi else Some m), midpoint = k\<rparr>, w2)))"
  by (auto simp: loop_body_def split: prod.splits sum.splits)

lemma while_loop_spec:
  "j \<le> 2 ^ 53 \<Longrightarrow>
   \<exists>r. while_loop env g dg
          \<lparr>remainingJitterBits = Finite (of_nat j), low = lo, high = hi, midpoint = m\<rparr> w = Some r \<and>
       map_prod (map_sum id midpoint) id r = spec_narrow env g dg j lo hi m w"
proof (induction j arbitrary: lo hi m w)
  case 0
  show ?case
    by (simp add: while_loop_stop)
next
  case (Suc j)
  obtain drawn w1 where d: "draw g w = (drawn, w1)"
    by (cases "draw g w")
  define lo' where "lo' = (if drawn then Some m else lo)"
  define hi' where "hi' = (if drawn then hi else Some m)"
  obtain x w2 where c: "call_key env lo' hi' dg w1 = (x, w2)"
    by (cases "call_key env lo' hi' dg w1")
  let ?s = "\<lparr>remainingJitterBits = Finite (of_nat (Suc j)), low = lo, high = hi, midpoint = m\<rparr>"
  have gt: "js_less (Finite 0) (remainingJitterBits ?s)"
    by simp
  have dec: "js_add (Finite (of_nat (Suc j))) (- 1) = Finite (of_nat j)"
    using Suc.prems by (rule js_add_dec)
  have jb: "j \<le> 2 ^ 53"
    using Suc.prems by simp
  show ?case
  proof (cases x)
    case (Inl e)
    have "loop_body env g dg ?s w = (Inl e, w2)"
      unfolding loop_body_fields d using c Inl by (simp add: lo'_def hi'_def)
    moreover have "spec_narrow env g dg (Suc j) lo hi m w = (Inl e, w2)"
      using c Inl by (simp add: d Let_def lo'_def hi'_def)
    ultimately show ?thesis
      using gt by (simp add: while_loop_step)
  next
    case (Inr k)
    have "loop_body env g dg ?s w =
        (Inr \<lparr>remainingJitterBits = Finite (of_nat j), low = lo', high = hi', midpoint = k\<rparr>, w2)"
      unfolding loop_body_fields d dec using c Inr by (simp add: lo'_def hi'_def)
    moreover have "spec_narrow env g dg (Suc j) lo hi m w = spec_narrow env g dg j lo' hi' k w2"
      using c Inr by (simp add: d Let_def lo'_def hi'_def)
    ultimately show ?thesis
      using gt Suc.IH [OF jb, of lo' hi' k w2] by (simp add: while_loop_step)
  qed
qed

lemma generateKeyBetween_spec:
  assumes "opt_jitterBits opts = Finite (of_nat j)" "j \<le> 2 ^ 53"
  shows "generateKeyBetween env a b opts w =
     Some (case call_key env a b (opt_digits opts) w of
             (Inl e, w1) \<Rightarrow> (Inl e, w1)
           | (Inr m, w1) \<Rightarrow>
               spec_narrow env (opt_getRandomBit env opts) (opt_digits opts) j a b m w1)"
proof (cases "call_key env a b (opt_digits opts) w")
  case (Pair r w1)
  show ?thesis
  proof (cases r)
    case (Inl e)
    with Pair assms(1) show ?thesis
      by (simp add: generateKeyBetween_def Let_def assertIsPositiveInteger_def)
  next
    case (Inr m)
    from while_loop_spec [OF assms(2), of env "opt_getRandomBit env opts" "opt_digits opts" a b m w1]
    obtain r' where
      r': "while_loop env (opt_getRandomBit env opts) (opt_digits opts)
             \<lparr>remainingJitterBits = Finite (of_nat j), low = a, high = b, midpoint = m\<rparr> w1 = Some r'"
          "map_prod (map_sum id midpoint) id r' =
             spec_narrow env (opt_getRandomBit env opts) (opt_digits opts) j a b m w1"
      by blast
    obtain x w2 where x: "r' = (x, w2)"
      by (cases r')
    from r'(2) show ?thesis
      using Pair Inr assms(1) r'(1) x
      by (cases x) (auto simp: generateKeyBetween_def Let_def assertIsPositiveInteger_def)
  qed
qed

lemma options_are_simps:
  assumes "options_are opts dg jb g"
  shows "opt_digits opts = dg"
    and "opt_jitterBits opts = (case jb of None \<Rightarrow> Finite 30 | Some x \<Rightarrow> x)"
    and "opt_getRandomBit env opts = (case g of None \<Rightarrow> DEFAULT_GET_RANDOM_BIT env | Some f \<Rightarrow> f)"
    and "digits (opts_or_empty opts) = dg"
    and "jitterBits (opts_or_empty opts) = jb"
  using assms
  by (auto simp: options_are_def opt_digits_def opt_jitterBits_def opt_getRandomBit_def
        opts_or_empty_def DEFAULT_JITTER_BITS_def split: option.splits)


text \<open>
  A counter that is positive and that the decrement leaves as it is: under the contract no
  iteration throws, so the loop has no way out.
\<close>

lemma while_loop_stuck:
  assumes c: "key_contract V dg (unjitteredGenerateKeyBetween env)"
      and k: "js_less (Finite 0) (Finite K)" "js_add (Finite K) (- 1) = Finite K"
      and i: "interval_ok V s" "remainingJitterBits s = Finite K"
  shows "while_loop env g dg s w = None"
proof (rule ccontr)
  assume "while_loop env g dg s w \<noteq> None"
  then obtain y where y: "while_loop env g dg s w = Some y"
    by blast
  let ?P = "\<lambda>e1 g1 d1 s1 w1 y1.
              e1 = env \<and> d1 = dg \<and> interval_ok V s1 \<and> remainingJitterBits s1 = Finite K \<longrightarrow> False"
  have "?P env g dg s w y"
  proof (rule while_loop.raw_induct [where P = ?P, OF _ y])
    fix f e1 g1 d1 s1 w1 y1
    assume ih: "\<And>e g d s w y. f e g d s w = Some y \<Longrightarrow> ?P e g d s w y"
       and eq: "(if js_less (Finite 0) (remainingJitterBits s1)
                 then case loop_body e1 g1 d1 s1 w1 of
                        (Inl e, w') \<Rightarrow> Some (Inl e, w')
                      | (Inr s', w') \<Rightarrow> f e1 g1 d1 s' w'
                 else Some (Inr s1, w1)) = Some y1"
    show "?P e1 g1 d1 s1 w1 y1"
    proof
      assume a: "e1 = env \<and> d1 = dg \<and> interval_ok V s1 \<and> remainingJitterBits s1 = Finite K"
      from loop_body_ok [OF c, of s1 g1 w1] a obtain s2 w2 where
        b: "loop_body env g1 dg s1 w1 = (Inr s2, w2)" "interval_ok V s2"
           "remainingJitterBits s2 = Finite K"
        using k(2) by auto
      from eq a b(1) k(1) have "f env g1 dg s2 w2 = Some y1"
        by simp
      from ih [OF this] b(2,3) show False
        by simp
    qed
  qed
  with i show False
    by simp
qed

section \<open>The states at the head of the loop: lemmas\<close>

lemma loop_reaches_ok:
  assumes c: "key_contract V dg (unjitteredGenerateKeyBetween env)"
      and i: "interval_ok V s0"
  shows "loop_reaches env g dg s0 w0 s w \<Longrightarrow>
           interval_ok V s \<and> lower_le (low s0) (low s) \<and> upper_le (high s) (high s0)"
proof (induction rule: loop_reaches.induct)
  case start
  show ?case
    using i by (simp add: lower_le_refl upper_le_refl)
next
  case (iteration s w s' w')
  from loop_body_ok [OF c, of s g w] iteration.IH iteration.hyps(3)
  have "interval_ok V s'" "lower_le (low s) (low s')" "upper_le (high s') (high s)"
    by auto
  with iteration.IH show ?case
    by (blast intro: lower_le_trans upper_le_trans)
qed

lemma loop_reaches_first:
  assumes "js_less (Finite 0) (remainingJitterBits s)" "loop_body env g dg s w = (Inr s1, w1)"
  shows "loop_reaches env g dg s1 w1 s' w' \<Longrightarrow> loop_reaches env g dg s w s' w'"
proof (induction rule: loop_reaches.induct)
  case start
  show ?case
    using assms by (blast intro: loop_reaches.intros)
next
  case (iteration s2 w2 s3 w3)
  then show ?case
    by (blast intro: loop_reaches.iteration)
qed

text \<open>The state the loop ends in is one of the states at its head.\<close>

lemma while_loop_reaches:
  fixes env :: "('e, 's) env"
  assumes y: "while_loop env g dg s w = Some (Inr s', w')"
  shows "loop_reaches env g dg s w s' w'"
proof -
  let ?P = "\<lambda>(e1 :: ('e, 's) env) g1 d1 s1 w1 (y1 :: ('e thrown + loop_state) \<times> 's world).
              \<forall>s2 w2. y1 = (Inr s2, w2) \<longrightarrow> loop_reaches e1 g1 d1 s1 w1 s2 w2"
  have "?P env g dg s w (Inr s', w')"
  proof (rule while_loop.raw_induct [where P = ?P, OF _ y])
    fix f e1 g1 d1 s1 w1 y1
    assume ih: "\<And>e g d s w y. f e g d s w = Some y \<Longrightarrow> ?P e g d s w y"
       and eq: "(if js_less (Finite 0) (remainingJitterBits s1)
                 then case loop_body e1 g1 d1 s1 w1 of
                        (Inl e, w') \<Rightarrow> Some (Inl e, w')
                      | (Inr s', w') \<Rightarrow> f e1 g1 d1 s' w'
                 else Some (Inr s1, w1)) = Some y1"
    show "?P e1 g1 d1 s1 w1 y1"
    proof (intro allI impI)
      fix s2 w2 assume y1: "y1 = (Inr s2, w2)"
      show "loop_reaches e1 g1 d1 s1 w1 s2 w2"
      proof (cases "js_less (Finite 0) (remainingJitterBits s1)")
        case False
        with eq y1 show ?thesis
          by (simp add: loop_reaches.start)
      next
        case True
        obtain x w3 where b: "loop_body e1 g1 d1 s1 w1 = (x, w3)"
          by (cases "loop_body e1 g1 d1 s1 w1")
        show ?thesis
        proof (cases x)
          case (Inl e)
          with eq True b y1 show ?thesis
            by simp
        next
          case (Inr s3)
          with eq True b have "f e1 g1 d1 s3 w3 = Some y1"
            by simp
          from ih [OF this] y1 have "loop_reaches e1 g1 d1 s3 w3 s2 w2"
            by simp
          with True b Inr show ?thesis
            by (blast intro: loop_reaches_first)
        qed
      qed
    qed
  qed
  then show ?thesis
    by simp
qed

section \<open>The concrete environment meets the contracts\<close>

lemma less_append_nonempty: "ys \<noteq> [] \<Longrightarrow> xs < xs @ ys" for xs :: string
  by (induction xs) (auto simp: neq_Nil_conv)

lemma pad_less:
  fixes z c :: char
  assumes zc: "z < c"
  shows "y \<noteq> [] \<Longrightarrow> set y \<subseteq> {z, c} \<Longrightarrow> last y = c \<Longrightarrow> length y \<le> n \<Longrightarrow>
     replicate n z @ [c] < y"
proof (induction y arbitrary: n)
  case Nil
  then show ?case by simp
next
  case (Cons x ys)
  then obtain n' where n: "n = Suc n'" "length ys \<le> n'"
    by (cases n) auto
  show ?case
  proof (cases "x = c")
    case True
    then show ?thesis using zc by (simp add: n)
  next
    case False
    with Cons.prems zc have x: "x = z" and ys: "ys \<noteq> []"
      by auto
    with Cons.prems have "set ys \<subseteq> {z, c}" "last ys = c"
      by auto
    from Cons.IH [OF ys this n(2)] show ?thesis
      by (simp add: n x)
  qed
qed

lemma append_pad_less:
  fixes z c :: char
  assumes zc: "z < c"
  shows "x < y \<Longrightarrow> set y \<subseteq> {z, c} \<Longrightarrow> last y = c \<Longrightarrow> length y \<le> n \<Longrightarrow>
     x @ replicate n z @ [c] < y"
proof (induction x arbitrary: y n)
  case Nil
  then show ?case using pad_less [OF zc, of y n] by auto
next
  case (Cons a xs)
  then obtain b ys where y: "y = b # ys"
    by (cases y) auto
  show ?case
  proof (cases "a < b")
    case True
    then show ?thesis by (simp add: y)
  next
    case False
    with Cons.prems(1) have ab: "a = b" and l: "xs < ys"
      by (auto simp: y)
    then have ne: "ys \<noteq> []"
      by auto
    with Cons.prems have "set ys \<subseteq> {z, c}" "last ys = c" "length ys \<le> n"
      by (auto simp: y)
    from Cons.IH [OF l this] show ?thesis
      by (simp add: y ab)
  qed
qed

lemma alphabet_less: "alphabet dg = Some (z, c) \<Longrightarrow> z < c"
  by (auto simp: alphabet_def split: option.splits list.splits if_splits)

lemma bin_between_ok:
  assumes al: "alphabet dg = Some (z, c)"
      and "valid_bound (bin_key dg) a" "valid_bound (bin_key dg) b" "ordered a b"
  shows "\<exists>k. bin_between a b dg = Inr k \<and> bin_key dg k \<and> between a k b"
proof -
  note zc = alphabet_less [OF al]
  define x where "x = (case a of None \<Rightarrow> [] | Some x \<Rightarrow> x)"
  define n where "n = (case b of None \<Rightarrow> 0 | Some y \<Rightarrow> length y)"
  define k where "k = x @ replicate n z @ [c]"
  have e: "bin_between a b dg = Inr k"
    by (simp add: bin_between_def al k_def x_def n_def)
  have sx: "set x \<subseteq> {z, c}"
    using assms(2) by (auto simp: x_def valid_bound_def bin_key_def al split: option.splits)
  have v: "bin_key dg k"
    using sx by (auto simp: bin_key_def al k_def)
  have lo: "case a of None \<Rightarrow> True | Some x' \<Rightarrow> x' < k"
    by (auto simp: k_def x_def less_append_nonempty split: option.splits)
  have hi: "case b of None \<Rightarrow> True | Some y \<Rightarrow> k < y"
  proof (cases b)
    case None
    then show ?thesis by simp
  next
    case (Some y)
    with assms(3) have y: "y \<noteq> []" "set y \<subseteq> {z, c}" "last y = c"
      by (auto simp: valid_bound_def bin_key_def al)
    have "x < y"
      using assms(4) Some y(1) by (cases y) (auto simp: ordered_def x_def split: option.splits)
    from append_pad_less [OF zc this y(2,3), of n] Some show ?thesis
      by (simp add: k_def n_def)
  qed
  from e v lo hi show ?thesis
    by (auto simp: between_def)
qed

lemma bin_key_contract: "alphabet dg \<noteq> None \<Longrightarrow> key_contract (bin_key dg) dg bin_between"
  unfolding key_contract_def using bin_between_ok by fastforce

lemma bin_batch_ok:
  assumes al: "alphabet dg = Some (z, c)"
  shows "valid_bound (bin_key dg) a \<Longrightarrow> valid_bound (bin_key dg) b \<Longrightarrow> ordered a b \<Longrightarrow>
     length (bin_batch a b m dg) = m \<and> sorted_wrt (<) (bin_batch a b m dg) \<and>
     (\<forall>k \<in> set (bin_batch a b m dg). bin_key dg k \<and> between a k b)"
proof (induction m arbitrary: a)
  case 0
  then show ?case by simp
next
  case (Suc m)
  from bin_between_ok [OF al Suc.prems] obtain k where
    k: "bin_between a b dg = Inr k" "bin_key dg k" "between a k b"
    by blast
  have "valid_bound (bin_key dg) (Some k)" "ordered (Some k) b"
    using k by (auto simp: valid_bound_def ordered_def between_def split: option.splits)
  from Suc.IH [OF this(1) Suc.prems(2) this(2)]
  have ih: "length (bin_batch (Some k) b m dg) = m" "sorted_wrt (<) (bin_batch (Some k) b m dg)"
    "\<forall>k' \<in> set (bin_batch (Some k) b m dg). bin_key dg k' \<and> between (Some k) k' b"
    by auto
  have "\<forall>k' \<in> set (bin_batch (Some k) b m dg). k < k' \<and> between a k' b"
    using ih(3) k(3) by (auto simp: between_def split: option.splits)
  with ih k show ?case
    by simp
qed

lemma bin_batch_contract:
  assumes "alphabet dg \<noteq> None"
  shows "batch_contract (bin_key dg) dg bin_nkeys"
  unfolding batch_contract_def
proof (intro allI impI)
  fix a b m
  from assms obtain z c where al: "alphabet dg = Some (z, c)"
    by auto
  assume "valid_bound (bin_key dg) a \<and> valid_bound (bin_key dg) b \<and> ordered a b"
  then have "length (bin_batch a b m dg) = m \<and> sorted_wrt (<) (bin_batch a b m dg) \<and>
     (\<forall>k \<in> set (bin_batch a b m dg). bin_key dg k \<and> between a k b)"
    using bin_batch_ok [OF al] by blast
  moreover have "bin_nkeys a b (Finite (of_nat m)) dg = Inr (bin_batch a b m dg)"
    using assms by (simp add: bin_nkeys_def)
  ultimately show "\<exists>ks. bin_nkeys a b (Finite (of_nat m)) dg = Inr ks \<and> length ks = m \<and>
           sorted_wrt (<) ks \<and> (\<forall>k \<in> set ks. bin_key dg k \<and> between a k b)"
    by blast
qed

lemma alphabets: "alphabet None = Some (CHR ''0'', CHR ''1'')" "alphabet (Some ''ab'') = Some (CHR ''a'', CHR ''b'')"
  by (simp_all add: alphabet_def)

lemma fractions_not_integer:
  "\<not> isInteger (Finite (7 / 2))" "\<not> isInteger (Finite (- 3 / 2))"
  by code_simp+

lemma bin_env_simps:
  "unjitteredGenerateKeyBetween bin_env = bin_between"
  "unjitteredGenerateNKeysBetween bin_env = bin_nkeys"
  "DEFAULT_GET_RANDOM_BIT bin_env = defaultRandom"
  "toString bin_env = print_number"
  by (simp_all add: bin_env_def)


lemma ab_opts_are: "options_are (ab_opts q) (Some ''ab'') (Some (Finite q)) (Some deterministicRandom)"
  by (simp add: options_are_def ab_opts_def)

section \<open>The batch loop: lemmas\<close>

lemma for_loop_stop:
  "\<not> js_less i n \<Longrightarrow> for_loop env keys n opts i acc w = Some (Inr acc, w)"
  by (subst for_loop.simps) simp

lemma for_loop_step:
  "js_less i n \<Longrightarrow>
     for_loop env keys n opts i acc w =
       (case generateKeyBetween env (js_index keys i) (js_index keys (js_add i 1)) opts w of
           None \<Rightarrow> None
         | Some (Inl e, w') \<Rightarrow> Some (Inl e, w')
         | Some (Inr k, w') \<Rightarrow> for_loop env keys n opts (js_add i 1) (acc @ [k]) w')"
  by (subst for_loop.simps) simp

text \<open>The loop at an index \<open>i < m\<close>, for \<open>m\<close> up to \<open>2 ^ 53\<close>.\<close>

lemma for_loop_step_nat:
  assumes "i < m" "m \<le> 2 ^ 53"
  shows "for_loop env keys (Finite (of_nat m)) opts (Finite (of_nat i)) acc w =
       (case generateKeyBetween env (js_index keys (Finite (of_nat i)))
               (js_index keys (Finite (of_nat (Suc i)))) opts w of
           None \<Rightarrow> None
         | Some (Inl e, w') \<Rightarrow> Some (Inl e, w')
         | Some (Inr k, w') \<Rightarrow>
             for_loop env keys (Finite (of_nat m)) opts (Finite (of_nat (Suc i))) (acc @ [k]) w')"
proof -
  have "Suc i \<le> 2 ^ 53"
    using assms by simp
  from js_add_inc [OF this] have e: "js_add (Finite (of_nat i)) 1 = Finite (of_nat (Suc i))" .
  have "js_less (Finite (of_nat i)) (Finite (of_nat m))"
    using assms(1) by simp
  from for_loop_step [OF this] show ?thesis
    unfolding e .
qed

lemma for_loop_ok:
  assumes c: "key_contract V (opt_digits opts) (unjitteredGenerateKeyBetween env)"
      and j: "opt_jitterBits opts = Finite (of_nat j)" "j \<le> 2 ^ 53"
      and k: "length keys = Suc m" "sorted_wrt (<) keys" "\<forall>k \<in> set keys. V k"
      and m: "m \<le> 2 ^ 53"
  shows "d = m - i \<Longrightarrow> i \<le> m \<Longrightarrow>
         \<exists>news w'. for_loop env keys (Finite (of_nat m)) opts (Finite (of_nat i)) acc w
                    = Some (Inr (acc @ news), w') \<and>
           length news = m - i \<and>
           (\<forall>t < m - i. keys ! (i + t) < news ! t \<and> news ! t < keys ! (Suc (i + t)))"
proof (induction d arbitrary: i acc w)
  case 0
  then have "i = m" by simp
  then show ?case
    by (simp add: for_loop_stop)
next
  case (Suc d)
  then have i: "i < m" "d = m - (Suc i)" "Suc i \<le> m"
    by simp_all
  have ix: "js_index keys (Finite (of_nat i)) = Some (keys ! i)"
      "js_index keys (Finite (of_nat (Suc i))) = Some (keys ! (Suc i))"
    using i k(1) by (simp_all add: js_index_nat del: of_nat_Suc)
  have lt: "keys ! i < keys ! (Suc i)"
    using k(1,2) i(1) by (simp add: sorted_wrt_iff_nth_less)
  have v: "valid_bound V (Some (keys ! i))" "valid_bound V (Some (keys ! (Suc i)))"
    using k(1,3) i(1) by (simp_all add: valid_bound_def)
  from generateKeyBetween_ok [OF c v _ j, of w] lt obtain x w1 where
    x: "generateKeyBetween env (Some (keys ! i)) (Some (keys ! (Suc i))) opts w = Some (Inr x, w1)"
       "keys ! i < x" "x < keys ! (Suc i)"
    by (auto simp: ordered_def between_def)
  from Suc.IH [OF i(2,3), of "acc @ [x]" w1] obtain news w' where
    n: "for_loop env keys (Finite (of_nat m)) opts (Finite (of_nat (Suc i))) (acc @ [x]) w1
          = Some (Inr ((acc @ [x]) @ news), w')"
       "length news = m - (Suc i)"
       "\<forall>t < m - (Suc i). keys ! (Suc (i + t)) < news ! t \<and> news ! t < keys ! (Suc (Suc (i + t)))"
    by auto
  have "for_loop env keys (Finite (of_nat m)) opts (Finite (of_nat i)) acc w
          = Some (Inr (acc @ (x # news)), w')"
    unfolding for_loop_step_nat [OF i(1) m] ix using x(1) n(1) by simp
  moreover have "length (x # news) = m - i"
    using n(2) i(1) by simp
  moreover have "\<forall>t < m - i. keys ! (i + t) < (x # news) ! t \<and> (x # news) ! t < keys ! (Suc (i + t))"
  proof (intro allI impI)
    fix t assume t: "t < m - i"
    show "keys ! (i + t) < (x # news) ! t \<and> (x # news) ! t < keys ! (Suc (i + t))"
    proof (cases t)
      case 0
      with x show ?thesis by simp
    next
      case (Suc t')
      with t have "t' < m - (Suc i)" by simp
      with n(3) have "keys ! (Suc (i + t')) < news ! t' \<and> news ! t' < keys ! (Suc (Suc (i + t')))"
        by blast
      then show ?thesis by (simp add: Suc)
    qed
  qed
  ultimately show ?case by blast
qed

lemma gaps_sorted:
  fixes keys ks :: "string list"
  assumes "length keys = Suc m" "sorted_wrt (<) keys" "length ks = m"
      and g: "\<forall>t < m. keys ! t < ks ! t \<and> ks ! t < keys ! (Suc t)"
  shows "sorted_wrt (<) ks"
  unfolding sorted_wrt_iff_nth_less
proof (intro allI impI)
  fix p q assume pq: "p < q" "q < length ks"
  then have "ks ! p < keys ! (Suc p)" "keys ! q < ks ! q"
    using g assms(3) by simp_all
  moreover have "keys ! (Suc p) \<le> keys ! q"
  proof (cases "Suc p = q")
    case True
    then show ?thesis by simp
  next
    case False
    with pq have "Suc p < q" "q < length keys"
      using assms(1,3) by simp_all
    with assms(2) show ?thesis
      by (simp add: sorted_wrt_iff_nth_less less_imp_le)
  qed
  ultimately show "ks ! p < ks ! q"
    by simp
qed

lemma gaps_between:
  fixes keys ks :: "string list"
  assumes "length keys = Suc m" "length ks = m" "\<forall>k \<in> set keys. between a k b"
      and g: "\<forall>t < m. keys ! t < ks ! t \<and> ks ! t < keys ! (Suc t)"
  shows "\<forall>k \<in> set ks. between a k b"
proof
  fix k assume "k \<in> set ks"
  then obtain t where t: "t < m" "k = ks ! t"
    using assms(2) by (auto simp: in_set_conv_nth)
  then have "keys ! t \<in> set keys" "keys ! (Suc t) \<in> set keys"
    using assms(1) by simp_all
  with assms(3) have "between a (keys ! t) b" "between a (keys ! (Suc t)) b"
    by blast+
  with g t show "between a k b"
    by (auto simp: between_def split: option.splits)
qed

lemma generateNKeysBetween_unfold:
  assumes "m < 2 ^ 53"
  shows "generateNKeysBetween env a b (Finite (of_nat m)) opts w =
     (if m = 0 then Some (Inr [], w)
      else if jitterBits (opts_or_empty opts) = Some (Finite 0)
      then Some (call_nkeys env a b (Finite (of_nat m)) (opt_digits opts) w)
      else (case call_nkeys env a b (Finite (of_nat (Suc m))) (opt_digits opts) w of
              (Inl e, w1) \<Rightarrow> Some (Inl e, w1)
            | (Inr keys, w1) \<Rightarrow>
                for_loop env keys (Finite (of_nat m)) opts (Finite 0) [] w1))"
proof -
  have "Suc m \<le> 2 ^ 53"
    using assms by simp
  from js_add_inc [OF this] have e: "js_add (Finite (of_nat m)) 1 = Finite (of_nat (Suc m))" .
  have "(case jitterBits (opts_or_empty opts) of None \<Rightarrow> False
          | Some x \<Rightarrow> js_strict_eq x (Finite 0)) \<longleftrightarrow>
         jitterBits (opts_or_empty opts) = Some (Finite 0)"
    by (auto simp: js_strict_eq_def split: option.splits)
  then show ?thesis
    by (simp add: generateNKeysBetween_def Let_def assertIsPositiveInteger_def js_strict_eq_def
          opt_digits_def e del: js_add.simps of_nat_Suc)
qed

lemma generateNKeysBetween_ok:
  assumes c: "key_contract V (opt_digits opts) (unjitteredGenerateKeyBetween env)"
      and bc: "batch_contract V (opt_digits opts) (unjitteredGenerateNKeysBetween env)"
      and v: "valid_bound V a" "valid_bound V b" "ordered a b"
      and j: "opt_jitterBits opts = Finite (of_nat j)" "j \<le> 2 ^ 53"
      and m: "m < 2 ^ 53"
  shows "\<exists>ks w'. generateNKeysBetween env a b (Finite (of_nat m)) opts w = Some (Inr ks, w') \<and>
           length ks = m \<and> sorted_wrt (<) ks \<and> (\<forall>k \<in> set ks. between a k b)"
proof -
  consider "m = 0" | "m \<noteq> 0" "jitterBits (opts_or_empty opts) = Some (Finite 0)"
    | "m \<noteq> 0" "jitterBits (opts_or_empty opts) \<noteq> Some (Finite 0)"
    by blast
  then show ?thesis
  proof cases
    case 1
    then show ?thesis
      unfolding generateNKeysBetween_unfold [OF m] by simp
  next
    case 2
    from bc v obtain ks where
      ks: "unjitteredGenerateNKeysBetween env a b (Finite (of_nat m)) (opt_digits opts) = Inr ks"
          "length ks = m" "sorted_wrt (<) ks" "\<forall>k \<in> set ks. V k \<and> between a k b"
      unfolding batch_contract_def by blast
    with 2 show ?thesis
      by (simp add: generateNKeysBetween_unfold [OF m] call_nkeys_def)
  next
    case 3
    from bc v obtain keys where
      keys: "unjitteredGenerateNKeysBetween env a b (Finite (of_nat (Suc m))) (opt_digits opts)
               = Inr keys"
          "length keys = Suc m" "sorted_wrt (<) keys" "\<forall>k \<in> set keys. V k \<and> between a k b"
      unfolding batch_contract_def by blast
    define w1 where
      "w1 = w\<lparr>trace := trace w @ [NKeysBetween a b (Finite (of_nat (Suc m))) (opt_digits opts)]\<rparr>"
    from keys(4) have kv: "\<forall>k \<in> set keys. V k" and kb: "\<forall>k \<in> set keys. between a k b"
      by blast+
    have m': "m \<le> 2 ^ 53"
      using m by simp
    from for_loop_ok [OF c j keys(2,3) kv m' refl, of 0 "[]" w1] obtain ks w' where
      l: "for_loop env keys (Finite (of_nat m)) opts (Finite 0) [] w1 = Some (Inr ks, w')"
         "length ks = m" "\<forall>t < m. keys ! t < ks ! t \<and> ks ! t < keys ! (Suc t)"
      by auto
    have "generateNKeysBetween env a b (Finite (of_nat m)) opts w = Some (Inr ks, w')"
      using 3 keys(1) l(1) by (simp add: generateNKeysBetween_unfold [OF m] call_nkeys_def w1_def)
    with gaps_sorted [OF keys(2,3) l(2,3)] gaps_between [OF keys(2) l(2) kb l(3)] l(2)
    show ?thesis
      by blast
  qed
qed

section \<open>The trace: lemmas\<close>

lemma bits_of_append [simp]: "bits_of (es @ es') = bits_of es @ bits_of es'"
  by (induction es rule: bits_of.induct) simp_all

lemma source_run_Suc:
  "source_run g (Suc j) st =
     (fst (g st) # fst (source_run g j (snd (g st))), snd (source_run g j (snd (g st))))"
  by (simp split: prod.splits)

lemma source_run_length [simp]: "length (fst (source_run g j st)) = j"
  by (induction j arbitrary: st) (simp_all add: source_run_Suc del: source_run.simps(2))

lemma source_run_add:
  "source_run g (i + j) st =
     (fst (source_run g i st) @ fst (source_run g j (snd (source_run g i st))),
      snd (source_run g j (snd (source_run g i st))))"
  by (induction i arbitrary: st) (simp_all add: source_run_Suc del: source_run.simps(2))

lemma spec_narrow_trace:
  "spec_narrow env g dg j lo hi m w = (r, w') \<Longrightarrow>
     \<exists>es. trace w' = trace w @ es \<and>
       (\<forall>k. r = Inr k \<longrightarrow>
          bits_of es = fst (source_run g j (source w)) \<and> source w' = snd (source_run g j (source w)))"
proof (induction j arbitrary: lo hi m w)
  case 0
  then show ?case by auto
next
  case (Suc j)
  obtain drawn st where g: "g (source w) = (drawn, st)"
    by (cases "g (source w)")
  define w1 where "w1 = \<lparr>source = st, trace = trace w @ [RandomBit drawn]\<rparr>"
  have d: "draw g w = (drawn, w1)"
    by (simp add: draw_def g w1_def)
  define lo' where "lo' = (if drawn then Some m else lo)"
  define hi' where "hi' = (if drawn then hi else Some m)"
  obtain x w2 where c: "call_key env lo' hi' dg w1 = (x, w2)"
    by (cases "call_key env lo' hi' dg w1")
  then have t2: "trace w2 = trace w @ [RandomBit drawn, KeyBetween lo' hi' dg]" "source w2 = st"
    by (auto simp: call_key_def w1_def)
  show ?case
  proof (cases x)
    case (Inl e)
    with Suc.prems d c have "r = Inl e" "w' = w2"
      by (simp_all add: Let_def lo'_def hi'_def)
    with t2 show ?thesis by simp
  next
    case (Inr k)
    with Suc.prems d c have "spec_narrow env g dg j lo' hi' k w2 = (r, w')"
      by (simp add: Let_def lo'_def hi'_def)
    from Suc.IH [OF this] obtain es where
      es: "trace w' = trace w2 @ es"
        "\<forall>k. r = Inr k \<longrightarrow>
           bits_of es = fst (source_run g j (source w2)) \<and> source w' = snd (source_run g j (source w2))"
      by blast
    show ?thesis
      using es t2 g
      by (intro exI [of _ "[RandomBit drawn, KeyBetween lo' hi' dg] @ es"])
         (simp add: source_run_Suc del: source_run.simps(2))
  qed
qed

lemma generateKeyBetween_trace:
  assumes "opt_jitterBits opts = Finite (of_nat j)" "j \<le> 2 ^ 53"
  shows "\<exists>r w' rest. generateKeyBetween env a b opts w = Some (r, w') \<and>
           trace w' = trace w @ KeyBetween a b (opt_digits opts) # rest \<and>
           (\<forall>k. r = Inr k \<longrightarrow>
              bits_of rest = fst (source_run (opt_getRandomBit env opts) j (source w)) \<and>
              source w' = snd (source_run (opt_getRandomBit env opts) j (source w)))"
proof -
  define w1 where "w1 = w\<lparr>trace := trace w @ [KeyBetween a b (opt_digits opts)]\<rparr>"
  show ?thesis
  proof (cases "unjitteredGenerateKeyBetween env a b (opt_digits opts)")
    case (Inl e)
    then show ?thesis
      by (simp add: generateKeyBetween_spec [OF assms] call_key_def)
  next
    case (Inr m)
    obtain r w' where
      s: "spec_narrow env (opt_getRandomBit env opts) (opt_digits opts) j a b m w1 = (r, w')"
      by (cases "spec_narrow env (opt_getRandomBit env opts) (opt_digits opts) j a b m w1")
    from spec_narrow_trace [OF s] obtain es where
      "trace w' = trace w1 @ es"
      "\<forall>k. r = Inr k \<longrightarrow>
         bits_of es = fst (source_run (opt_getRandomBit env opts) j (source w1)) \<and>
         source w' = snd (source_run (opt_getRandomBit env opts) j (source w1))"
      by blast
    moreover have "generateKeyBetween env a b opts w = Some (r, w')"
      using Inr s by (simp add: generateKeyBetween_spec [OF assms] call_key_def w1_def)
    ultimately show ?thesis
      by (simp add: w1_def)
  qed
qed

lemma for_loop_trace:
  assumes j: "opt_jitterBits opts = Finite (of_nat j)" "j \<le> 2 ^ 53"
      and m: "m \<le> 2 ^ 53"
  shows "d = m - i \<Longrightarrow> i \<le> m \<Longrightarrow>
         \<exists>r w'. for_loop env keys (Finite (of_nat m)) opts (Finite (of_nat i)) acc w = Some (r, w') \<and>
           (\<exists>es. trace w' = trace w @ es) \<and>
           (\<forall>ks. r = Inr ks \<longrightarrow>
              (\<exists>blocks. length blocks = m - i \<and> trace w' = trace w @ concat blocks \<and>
                 (\<forall>t < m - i. \<exists>rest.
                    blocks ! t = KeyBetween (js_index keys (Finite (of_nat (i + t))))
                                   (js_index keys (Finite (of_nat (Suc (i + t)))))
                                   (opt_digits opts) # rest \<and>
                    length (bits_of rest) = j) \<and>
                 bits_of (concat blocks)
                   = fst (source_run (opt_getRandomBit env opts) ((m - i) * j) (source w)) \<and>
                 source w'
                   = snd (source_run (opt_getRandomBit env opts) ((m - i) * j) (source w))))"
proof (induction d arbitrary: i acc w)
  case 0
  then have "i = m" by simp
  then show ?case
    by (simp add: for_loop_stop)
next
  case (Suc d)
  let ?g = "opt_getRandomBit env opts"
  let ?key = "\<lambda>t. KeyBetween (js_index keys (Finite (of_nat t)))
                      (js_index keys (Finite (of_nat (Suc t)))) (opt_digits opts)"
  from Suc have i: "i < m" "d = m - Suc i" "Suc i \<le> m"
    by simp_all
  from generateKeyBetween_trace [OF j, of env "js_index keys (Finite (of_nat i))"
      "js_index keys (Finite (of_nat (Suc i)))" w]
  obtain r1 w1 rest where
    g: "generateKeyBetween env (js_index keys (Finite (of_nat i)))
          (js_index keys (Finite (of_nat (Suc i)))) opts w = Some (r1, w1)"
       "trace w1 = trace w @ ?key i # rest"
       "\<forall>k. r1 = Inr k \<longrightarrow>
          bits_of rest = fst (source_run ?g j (source w)) \<and>
          source w1 = snd (source_run ?g j (source w))"
    by blast
  show ?case
  proof (cases r1)
    case (Inl e)
    with g(1,2) show ?thesis
      unfolding for_loop_step_nat [OF i(1) m] by simp
  next
    case (Inr k)
    with g(3) have dr: "bits_of rest = fst (source_run ?g j (source w))"
      "source w1 = snd (source_run ?g j (source w))"
      by simp_all
    define blk where "blk = ?key i # rest"
    from Suc.IH [OF i(2,3), of "acc @ [k]" w1] obtain r w' where
      l: "for_loop env keys (Finite (of_nat m)) opts (Finite (of_nat (Suc i))) (acc @ [k]) w1
            = Some (r, w')"
         "\<exists>es. trace w' = trace w1 @ es"
         "\<forall>ks. r = Inr ks \<longrightarrow>
            (\<exists>blocks. length blocks = m - Suc i \<and> trace w' = trace w1 @ concat blocks \<and>
               (\<forall>t < m - Suc i. \<exists>rest.
                  blocks ! t = ?key (Suc i + t) # rest \<and> length (bits_of rest) = j) \<and>
               bits_of (concat blocks) = fst (source_run ?g ((m - Suc i) * j) (source w1)) \<and>
               source w' = snd (source_run ?g ((m - Suc i) * j) (source w1)))"
      by blast
    have f: "for_loop env keys (Finite (of_nat m)) opts (Finite (of_nat i)) acc w = Some (r, w')"
      unfolding for_loop_step_nat [OF i(1) m] using g(1) Inr l(1) by simp
    have e: "\<exists>es. trace w' = trace w @ es"
      using l(2) g(2) by auto
    have "\<exists>blocks. length blocks = m - i \<and> trace w' = trace w @ concat blocks \<and>
                 (\<forall>t < m - i. \<exists>rest.
                    blocks ! t = ?key (i + t) # rest \<and> length (bits_of rest) = j) \<and>
                 bits_of (concat blocks) = fst (source_run ?g ((m - i) * j) (source w)) \<and>
                 source w' = snd (source_run ?g ((m - i) * j) (source w))" if "r = Inr ks" for ks
    proof -
      from l(3) that obtain blocks where
        b: "length blocks = m - Suc i" "trace w' = trace w1 @ concat blocks"
           "\<forall>t < m - Suc i. \<exists>rest.
               blocks ! t = ?key (Suc i + t) # rest \<and> length (bits_of rest) = j"
           "bits_of (concat blocks) = fst (source_run ?g ((m - Suc i) * j) (source w1))"
           "source w' = snd (source_run ?g ((m - Suc i) * j) (source w1))"
        by blast
      have mi: "(m - i) * j = j + (m - Suc i) * j"
        using i(1) by (metis Suc_diff_Suc mult_Suc)
      have "length (blk # blocks) = m - i"
        using b(1) i(1) by simp
      moreover have "trace w' = trace w @ concat (blk # blocks)"
        using b(2) g(2) by (simp add: blk_def)
      moreover have "\<exists>rest. (blk # blocks) ! t = ?key (i + t) # rest \<and> length (bits_of rest) = j"
        if "t < m - i" for t
      proof (cases t)
        case 0
        then show ?thesis using dr(1) by (simp add: blk_def)
      next
        case (Suc t')
        with that have "t' < m - Suc i" by simp
        with b(3) show ?thesis by (simp add: Suc)
      qed
      moreover have "bits_of (concat (blk # blocks)) = fst (source_run ?g ((m - i) * j) (source w))"
        unfolding mi source_run_add using b(4) dr by (simp add: blk_def)
      moreover have "source w' = snd (source_run ?g ((m - i) * j) (source w))"
        unfolding mi source_run_add using b(5) dr by simp
      ultimately show ?thesis
        by blast
    qed
    with f e show ?thesis
      by blast
  qed
qed

section \<open>Counters that round: lemmas\<close>

lemma generateKeyBetween_stuck:
  assumes c: "key_contract V (opt_digits opts) (unjitteredGenerateKeyBetween env)"
      and v: "valid_bound V a" "valid_bound V b" "ordered a b"
      and j: "opt_jitterBits opts = Finite K" "isInteger (Finite K)" "0 < K"
             "js_add (Finite K) (- 1) = Finite K"
  shows "generateKeyBetween env a b opts w = None"
proof -
  from c v obtain m where
    m: "unjitteredGenerateKeyBetween env a b (opt_digits opts) = Inr m" "V m" "between a m b"
    unfolding key_contract_def by blast
  define s0 where "s0 = \<lparr>remainingJitterBits = Finite K, low = a, high = b, midpoint = m\<rparr>"
  have i: "interval_ok V s0" "remainingJitterBits s0 = Finite K"
    using m v by (simp_all add: interval_ok_def s0_def)
  have k: "js_less (Finite 0) (Finite K)"
    using j(3) by simp
  have "while_loop env (opt_getRandomBit env opts) (opt_digits opts) s0
          (w\<lparr>trace := trace w @ [KeyBetween a b (opt_digits opts)]\<rparr>) = None"
    using c k j(4) i by (rule while_loop_stuck)
  then show ?thesis
    using m(1) j(1,2,3)
    by (simp add: generateKeyBetween_def Let_def assertIsPositiveInteger_def call_key_def s0_def
             del: isInteger.simps)
qed

lemma big_integers:
  "isInteger (Finite (2 ^ 53 + 4))" "isInteger (Finite (2 ^ 53 + 2))"
  "\<not> js_less (Finite (2 ^ 53 + 4)) (Finite 0)" "\<not> js_less (Finite (2 ^ 53 + 2)) (Finite 0)"
  by simp_all

lemma generateNKeysBetween_stuck:
  assumes c: "key_contract V (opt_digits opts) (unjitteredGenerateKeyBetween env)"
      and bc: "batch_contract V (opt_digits opts) (unjitteredGenerateNKeysBetween env)"
      and v: "valid_bound V a" "valid_bound V b" "ordered a b"
      and j: "opt_jitterBits opts = Finite K" "isInteger (Finite K)" "0 < K"
             "js_add (Finite K) (- 1) = Finite K"
      and z: "jitterBits (opts_or_empty opts) \<noteq> Some (Finite 0)"
      and m: "0 < m" "m < 2 ^ 53"
  shows "generateNKeysBetween env a b (Finite (of_nat m)) opts w = None"
proof -
  from bc v obtain keys where
    keys: "unjitteredGenerateNKeysBetween env a b (Finite (of_nat (Suc m))) (opt_digits opts)
             = Inr keys"
        "length keys = Suc m" "sorted_wrt (<) keys" "\<forall>k \<in> set keys. V k \<and> between a k b"
    unfolding batch_contract_def by blast
  define w1 where
    "w1 = w\<lparr>trace := trace w @
            [NKeysBetween a b (Finite (of_nat (Suc m))) (opt_digits opts)]\<rparr>"
  have ix: "js_index keys (Finite (of_nat 0)) = Some (keys ! 0)"
      "js_index keys (Finite (of_nat (Suc 0))) = Some (keys ! Suc 0)"
    unfolding js_index_nat using keys(2) m(1) by simp_all
  have kv: "valid_bound V (Some (keys ! 0))" "valid_bound V (Some (keys ! Suc 0))"
    using keys(2,4) m(1) by (simp_all add: valid_bound_def)
  have ko: "ordered (Some (keys ! 0)) (Some (keys ! Suc 0))"
    using keys(2,3) m(1) by (simp add: ordered_def sorted_wrt_iff_nth_less)
  have g: "generateKeyBetween env (Some (keys ! 0)) (Some (keys ! Suc 0)) opts w1 = None"
    using c kv ko j by (rule generateKeyBetween_stuck)
  have m': "m \<le> 2 ^ 53"
    using m(2) by simp
  have "for_loop env keys (Finite (of_nat m)) opts (Finite (of_nat 0)) [] w1 = None"
    unfolding for_loop_step_nat [OF m(1) m'] ix g by simp
  then show ?thesis
    unfolding generateNKeysBetween_unfold [OF m(2)]
    using m(1) z keys(1) by (simp add: call_nkeys_def w1_def)
qed

lemma while_loop_draws:
  assumes c: "key_contract V dg (unjitteredGenerateKeyBetween env)"
      and i: "interval_ok V s" "remainingJitterBits s = Finite (of_nat j)" "j \<le> 2 ^ 53"
  shows "\<exists>s' w' es. while_loop env g dg s w = Some (Inr s', w') \<and> trace w' = trace w @ es \<and>
           draws es = j"
proof -
  from while_loop_ok [OF c i, of g w] obtain s' w' where
    l: "while_loop env g dg s w = Some (Inr s', w')"
    by blast
  have s: "s = \<lparr>remainingJitterBits = Finite (of_nat j), low = low s, high = high s,
                midpoint = midpoint s\<rparr>"
    using i(2) by (cases s) simp
  from while_loop_spec [OF i(3), of env g dg "low s" "high s" "midpoint s" w] l
  have "spec_narrow env g dg j (low s) (high s) (midpoint s) w = (Inr (midpoint s'), w')"
    by (simp flip: s)
  from spec_narrow_trace [OF this] obtain es where
    "trace w' = trace w @ es" "bits_of es = fst (source_run g j (source w))"
    by blast
  then have "trace w' = trace w @ es" "draws es = j"
    by (simp_all add: draws_def)
  with l show ?thesis
    by blast
qed

text \<open>
  One decrement that rounds by two: from a counter \<open>K\<close> above \<open>2 ^ 53\<close> that the decrement
  takes to \<open>j \<le> 2 ^ 53\<close>, the loop runs \<open>j + 1\<close> iterations.
\<close>

lemma generateKeyBetween_draws_rounded:
  assumes c: "key_contract V (opt_digits opts) (unjitteredGenerateKeyBetween env)"
      and v: "valid_bound V a" "valid_bound V b" "ordered a b"
      and k: "opt_jitterBits opts = Finite K" "isInteger (Finite K)" "0 < K"
             "js_add (Finite K) (- 1) = Finite (of_nat j)" "j \<le> 2 ^ 53"
  shows "\<exists>x w'. generateKeyBetween env a b opts w = Some (Inr x, w') \<and>
           draws (trace w') = draws (trace w) + Suc j"
proof -
  let ?g = "opt_getRandomBit env opts" and ?dg = "opt_digits opts"
  from c v obtain m where
    m: "unjitteredGenerateKeyBetween env a b ?dg = Inr m" "V m" "between a m b"
    unfolding key_contract_def by blast
  define s0 where "s0 = \<lparr>remainingJitterBits = Finite K, low = a, high = b, midpoint = m\<rparr>"
  define w1 where "w1 = w\<lparr>trace := trace w @ [KeyBetween a b ?dg]\<rparr>"
  have i0: "interval_ok V s0"
    using m v by (simp add: interval_ok_def s0_def)
  have gt: "js_less (Finite 0) (remainingJitterBits s0)"
    using k(3) by (simp add: s0_def)
  from loop_body_ok [OF c i0, of ?g w1] obtain s1 w2 where
    b: "loop_body env ?g ?dg s0 w1 = (Inr s1, w2)" "interval_ok V s1"
       "remainingJitterBits s1 = js_add (remainingJitterBits s0) (- 1)"
    by blast
  have r1: "remainingJitterBits s1 = Finite (of_nat j)"
    unfolding b(3) using k(4) by (simp add: s0_def del: js_add.simps)
  have t2: "draws (trace w2) = Suc (draws (trace w1))"
    using b(1) by (auto simp: loop_body_drawn Let_def draws_def split: sum.splits)
  from while_loop_draws [OF c b(2) r1 k(5), of ?g w2] obtain s' w' es where
    l: "while_loop env ?g ?dg s1 w2 = Some (Inr s', w')" "trace w' = trace w2 @ es" "draws es = j"
    by blast
  have "while_loop env ?g ?dg s0 w1 = Some (Inr s', w')"
    using gt b(1) l(1) by (simp add: while_loop_step)
  then have "generateKeyBetween env a b opts w = Some (Inr (midpoint s'), w')"
    using m(1) k(1,2,3)
    by (simp add: generateKeyBetween_def Let_def assertIsPositiveInteger_def call_key_def
          s0_def w1_def del: isInteger.simps)
  moreover have "draws (trace w') = draws (trace w) + Suc j"
    using l(2,3) t2 by (simp add: draws_def w1_def)
  ultimately show ?thesis
    by blast
qed

section \<open>The claims\<close>

text \<open>
  Claim C1, as stated, fails: \<open>2 ^ 53 + 4\<close> is a non-negative integer, and with it as
  \<open>jitterBits\<close> the decrement of the counter rounds back to \<open>2 ^ 53 + 4\<close>; with a primitive
  that meets its contract no iteration throws, and the call never returns.
\<close>

theorem generateKeyBetween_strictly_between_counterexample:
  "isInteger (Finite (2 ^ 53 + 4)) \<and> \<not> js_less (Finite (2 ^ 53 + 4)) (Finite 0) \<and>
   ''1'' < ''11'' \<and>
   generateKeyBetween bin_env (Some ''1'') (Some ''11'')
     (Some \<lparr>digits = None, jitterBits = Some (Finite (2 ^ 53 + 4)),
            getRandomBit = Some deterministicRandom\<rparr>) world0 = None"
proof -
  define opts :: "nat options option" where
    "opts = Some \<lparr>digits = None, jitterBits = Some (Finite (2 ^ 53 + 4)),
                  getRandomBit = Some deterministicRandom\<rparr>"
  have o: "opt_digits opts = None" "opt_jitterBits opts = Finite (2 ^ 53 + 4)"
    by (simp_all add: opts_def opt_digits_def opt_jitterBits_def opts_or_empty_def)
  have c: "key_contract (bin_key None) (opt_digits opts) (unjitteredGenerateKeyBetween bin_env)"
    by (simp add: o bin_env_simps bin_key_contract alphabets)
  have v: "valid_bound (bin_key None) (Some ''1'')" "valid_bound (bin_key None) (Some ''11'')"
      "ordered (Some ''1'') (Some ''11'')"
    by (simp_all add: valid_bound_def bin_key_def alphabets ordered_def)
  have "generateKeyBetween bin_env (Some ''1'') (Some ''11'') opts world0 = None"
    using c v o(2) big_integers(1) _ js_add_rounds(1) by (rule generateKeyBetween_stuck) simp
  then show ?thesis
    using big_integers(1,3) unfolding opts_def by simp
qed

text \<open>
  Claim C1, amended: for \<open>jitterBits\<close> a non-negative integer up to \<open>2 ^ 53\<close>. Let the
  caller's options be the alphabet \<open>dg\<close>, the number of bits \<open>jb\<close> and the source \<open>g\<close>, each
  given or not, the number of bits in effect (\<open>30\<close> when not given) being an integer \<open>j\<close>
  with \<open>0 \<le> j \<le> 2 ^ 53\<close>; let the unjittered primitive meet its contract for \<open>dg\<close>, and
  let \<open>lo\<close> and \<open>hi\<close> be keys it accepts with \<open>lo < hi\<close>. Then, whatever the random-bit
  source and the world, \<open>generateKeyBetween\<close> returns a key \<open>k\<close> with \<open>lo < k\<close> and
  \<open>k < hi\<close> in the lexicographic order of strings.
\<close>

theorem generateKeyBetween_strictly_between:
  assumes "options_are opts dg jb g"
      and "(case jb of None \<Rightarrow> Finite 30 | Some x \<Rightarrow> x) = Finite (of_nat j)" and "j \<le> 2 ^ 53"
      and "key_contract V dg (unjitteredGenerateKeyBetween env)"
      and "V lo" and "V hi" and "lo < hi"
  shows "\<exists>k w'. generateKeyBetween env (Some lo) (Some hi) opts w = Some (Inr k, w') \<and>
           lo < k \<and> k < hi"
proof -
  note o = options_are_simps [OF assms(1)]
  have c: "key_contract V (opt_digits opts) (unjitteredGenerateKeyBetween env)"
    using assms(4) by (simp add: o)
  have j: "opt_jitterBits opts = Finite (of_nat j)"
    using assms(2) by (simp add: o)
  from generateKeyBetween_ok [OF c _ _ _ j assms(3), of "Some lo" "Some hi" w] assms(5-7)
  show ?thesis
    by (auto simp: valid_bound_def ordered_def between_def)
qed

theorem generateKeyBetween_strictly_between_witness:
  "\<exists>k w'. generateKeyBetween bin_env (Some ''b'') (Some ''bb'') (ab_opts 3) world0
             = Some (Inr k, w') \<and> ''b'' < k \<and> k < ''bb''"
proof -
  have j: "(case Some (Finite 3) of None \<Rightarrow> Finite 30 | Some x \<Rightarrow> x) = Finite (of_nat 3)"
      "(3::nat) \<le> 2 ^ 53"
    by simp_all
  have c: "key_contract (bin_key (Some ''ab'')) (Some ''ab'') (unjitteredGenerateKeyBetween bin_env)"
    by (simp add: bin_env_simps bin_key_contract alphabets)
  have v: "bin_key (Some ''ab'') ''b''" "bin_key (Some ''ab'') ''bb''" "''b'' < ''bb''"
    by (simp_all add: bin_key_def alphabets)
  from generateKeyBetween_strictly_between [OF ab_opts_are j c v] show ?thesis .
qed

text \<open>
  Claim C2, as stated, fails: with \<open>n = 1\<close> and \<open>jitterBits = 2 ^ 53 + 4\<close>, both
  non-negative integers, and primitives that meet their contracts, the narrowing in the
  first gap never ends and the call returns no keys.
\<close>

theorem generateNKeysBetween_increasing_between_counterexample:
  "isInteger (Finite 1) \<and> \<not> js_less (Finite 1) (Finite 0) \<and>
   isInteger (Finite (2 ^ 53 + 4)) \<and> \<not> js_less (Finite (2 ^ 53 + 4)) (Finite 0) \<and>
   generateNKeysBetween bin_env (Some ''b'') (Some ''bb'') (Finite 1) (ab_opts (2 ^ 53 + 4)) world0
     = None"
proof -
  define K :: rat where "K = 2 ^ 53 + 4"
  note o = options_are_simps [OF ab_opts_are [of K]]
  have c: "key_contract (bin_key (Some ''ab'')) (opt_digits (ab_opts K))
             (unjitteredGenerateKeyBetween bin_env)"
    unfolding o by (simp add: bin_env_simps bin_key_contract alphabets)
  have bc: "batch_contract (bin_key (Some ''ab'')) (opt_digits (ab_opts K))
             (unjitteredGenerateNKeysBetween bin_env)"
    unfolding o by (simp add: bin_env_simps bin_batch_contract alphabets)
  have v: "valid_bound (bin_key (Some ''ab'')) (Some ''b'')"
      "valid_bound (bin_key (Some ''ab'')) (Some ''bb'')" "ordered (Some ''b'') (Some ''bb'')"
    by (simp_all add: valid_bound_def bin_key_def alphabets ordered_def)
  have j: "opt_jitterBits (ab_opts K) = Finite K"
    unfolding o by simp
  have k: "isInteger (Finite K)" "0 < K" "js_add (Finite K) (- 1) = Finite K"
    unfolding K_def using js_add_rounds(1) by simp_all
  have z: "jitterBits (opts_or_empty (ab_opts K)) \<noteq> Some (Finite 0)"
    unfolding o using k(2) by simp
  have m: "(0::nat) < 1" "(1::nat) < 2 ^ 53"
    by simp_all
  have "generateNKeysBetween bin_env (Some ''b'') (Some ''bb'') (Finite (of_nat 1))
          (ab_opts K) world0 = None"
    using c bc v j k z m by (rule generateNKeysBetween_stuck)
  then show ?thesis
    using k(1,2) unfolding K_def by simp
qed

text \<open>
  Claim C2, amended: for \<open>n\<close> a non-negative integer below \<open>2 ^ 53\<close> and \<open>jitterBits\<close> a
  non-negative integer up to \<open>2 ^ 53\<close>. Let the caller's options be the alphabet \<open>dg\<close>, the
  number of bits \<open>jb\<close> and the source \<open>g\<close>, each given or not, the number of bits in effect
  being an integer \<open>j\<close> with \<open>0 \<le> j \<le> 2 ^ 53\<close>; let both unjittered primitives meet their
  contracts for \<open>dg\<close>, let the bounds be absent or keys they accept, in order, and let \<open>n\<close>
  be an integer \<open>m\<close> with \<open>0 \<le> m < 2 ^ 53\<close>. Then \<open>generateNKeysBetween\<close> returns exactly
  \<open>m\<close> keys, strictly increasing, each strictly between the bounds (an absent bound
  bounds nothing).
\<close>

theorem generateNKeysBetween_increasing_between:
  assumes "options_are opts dg jb g"
      and "(case jb of None \<Rightarrow> Finite 30 | Some x \<Rightarrow> x) = Finite (of_nat j)" and "j \<le> 2 ^ 53"
      and "m < 2 ^ 53"
      and "key_contract V dg (unjitteredGenerateKeyBetween env)"
      and "batch_contract V dg (unjitteredGenerateNKeysBetween env)"
      and "valid_bound V a" and "valid_bound V b" and "ordered a b"
  shows "\<exists>ks w'. generateNKeysBetween env a b (Finite (of_nat m)) opts w = Some (Inr ks, w') \<and>
           length ks = m \<and> sorted_wrt (<) ks \<and> (\<forall>k \<in> set ks. between a k b)"
proof -
  note o = options_are_simps [OF assms(1)]
  have c: "key_contract V (opt_digits opts) (unjitteredGenerateKeyBetween env)"
    and bc: "batch_contract V (opt_digits opts) (unjitteredGenerateNKeysBetween env)"
    using assms(5,6) by (simp_all add: o)
  have j: "opt_jitterBits opts = Finite (of_nat j)"
    using assms(2) by (simp add: o)
  from c bc assms(7-9) j assms(3,4) show ?thesis
    by (rule generateNKeysBetween_ok)
qed

theorem generateNKeysBetween_increasing_between_witness:
  "\<exists>ks w'. generateNKeysBetween bin_env (Some ''b'') (Some ''bb'') (Finite 3) (ab_opts 2) world0
              = Some (Inr ks, w') \<and>
           length ks = 3 \<and> sorted_wrt (<) ks \<and>
           (\<forall>k \<in> set ks. between (Some ''b'') k (Some ''bb''))"
proof -
  have j: "(case Some (Finite 2) of None \<Rightarrow> Finite 30 | Some x \<Rightarrow> x) = Finite (of_nat 2)"
      "(2::nat) \<le> 2 ^ 53" "(3::nat) < 2 ^ 53"
    by simp_all
  have c: "key_contract (bin_key (Some ''ab'')) (Some ''ab'') (unjitteredGenerateKeyBetween bin_env)"
    by (simp add: bin_env_simps bin_key_contract alphabets)
  have bc: "batch_contract (bin_key (Some ''ab'')) (Some ''ab'')
              (unjitteredGenerateNKeysBetween bin_env)"
    by (simp add: bin_env_simps bin_batch_contract alphabets)
  have v: "valid_bound (bin_key (Some ''ab'')) (Some ''b'')"
      "valid_bound (bin_key (Some ''ab'')) (Some ''bb'')" "ordered (Some ''b'') (Some ''bb'')"
    by (simp_all add: valid_bound_def bin_key_def alphabets ordered_def)
  from generateNKeysBetween_increasing_between [OF ab_opts_are j c bc v, of world0]
  show ?thesis
    by simp
qed




text \<open>
  Claim C4, as stated, fails: with \<open>jitterBits = 2 ^ 53 + 2\<close>, a non-negative integer, the
  first decrement of the counter gives \<open>2 ^ 53\<close>, and a call that returns its key has
  invoked the source \<open>2 ^ 53 + 1\<close> times, one less than \<open>jitterBits\<close>.
\<close>

theorem entropy_accounting_counterexample:
  "isInteger (Finite (2 ^ 53 + 2)) \<and> \<not> js_less (Finite (2 ^ 53 + 2)) (Finite 0) \<and>
   map_option (isl \<circ> fst)
     (generateKeyBetween bin_env (Some ''b'') (Some ''bb'') (ab_opts (2 ^ 53 + 2)) world0)
     = Some False \<and>
   map_option (draws \<circ> trace \<circ> snd)
     (generateKeyBetween bin_env (Some ''b'') (Some ''bb'') (ab_opts (2 ^ 53 + 2)) world0)
     = Some (2 ^ 53 + 1)"
proof -
  define K :: rat where "K = 2 ^ 53 + 2"
  note o = options_are_simps [OF ab_opts_are [of K]]
  have c: "key_contract (bin_key (Some ''ab'')) (opt_digits (ab_opts K))
             (unjitteredGenerateKeyBetween bin_env)"
    unfolding o by (simp add: bin_env_simps bin_key_contract alphabets)
  have v: "valid_bound (bin_key (Some ''ab'')) (Some ''b'')"
      "valid_bound (bin_key (Some ''ab'')) (Some ''bb'')" "ordered (Some ''b'') (Some ''bb'')"
    by (simp_all add: valid_bound_def bin_key_def alphabets ordered_def)
  have j: "opt_jitterBits (ab_opts K) = Finite K"
    unfolding o by simp
  have k: "isInteger (Finite K)" "0 < K"
    unfolding K_def by simp_all
  have r: "js_add (Finite K) (- 1) = Finite (of_nat (2 ^ 53))"
    unfolding K_def using js_add_rounds(2) by simp
  have le: "(2::nat) ^ 53 \<le> 2 ^ 53"
    by simp
  from generateKeyBetween_draws_rounded [OF c v j k r le, of world0] obtain x w' where
    "generateKeyBetween bin_env (Some ''b'') (Some ''bb'') (ab_opts K) world0 = Some (Inr x, w')"
    "draws (trace w') = draws (trace world0) + Suc (2 ^ 53)"
    by blast
  then show ?thesis
    using k unfolding K_def by (simp add: world0_def draws_def)
qed


text \<open>
  Claim C4, amended: for \<open>jitterBits\<close> a non-negative integer up to \<open>2 ^ 53\<close> and \<open>n\<close> a
  non-negative integer below \<open>2 ^ 53\<close>. Let the caller's options be the alphabet \<open>dg\<close>, the
  number of bits \<open>jb\<close> and the source \<open>g\<close>, each given or not; the source in effect is \<open>g\<close>
  when given and the default one otherwise, the number of bits in effect an integer \<open>j\<close>
  with \<open>0 \<le> j \<le> 2 ^ 53\<close>, and \<open>n\<close> an integer \<open>m\<close> with \<open>0 \<le> m < 2 ^ 53\<close>. Both functions
  return or throw (they do not run forever), and they only add to the trace. When
  \<open>generateKeyBetween\<close> returns a key, the bits in its trace, all after its first call of
  the primitive, are those that \<open>j\<close> successive calls of the source in effect return from
  the state the source was in, and the source is left in the state after these \<open>j\<close> calls.
  When \<open>generateNKeysBetween\<close> returns keys, the same holds with \<open>m * j\<close> calls; and unless
  \<open>m = 0\<close> or \<open>jitterBits\<close> was given as \<open>0\<close>, what it added to the trace is the call of
  the batch primitive for \<open>m + 1\<close> keys followed by \<open>m\<close> blocks, one per gap in
  increasing order, the block of gap \<open>t\<close> beginning with the call of the primitive on the
  two ends of that gap and holding exactly \<open>j\<close> draws.
\<close>

theorem entropy_accounting:
  assumes "options_are opts dg jb g"
      and "(case jb of None \<Rightarrow> Finite 30 | Some x \<Rightarrow> x) = Finite (of_nat j)" and "j \<le> 2 ^ 53"
      and "m < 2 ^ 53"
      and "src = (case g of None \<Rightarrow> DEFAULT_GET_RANDOM_BIT env | Some f \<Rightarrow> f)"
  shows "(\<exists>r w' rest. generateKeyBetween env a b opts w = Some (r, w') \<and>
            trace w' = trace w @ KeyBetween a b dg # rest \<and>
            (\<forall>k. r = Inr k \<longrightarrow>
               bits_of rest = fst (source_run src j (source w)) \<and>
               source w' = snd (source_run src j (source w)))) \<and>
         (\<exists>r w' es. generateNKeysBetween env a b (Finite (of_nat m)) opts w = Some (r, w') \<and>
            trace w' = trace w @ es \<and>
            (\<forall>ks. r = Inr ks \<longrightarrow>
               bits_of es = fst (source_run src (m * j) (source w)) \<and>
               source w' = snd (source_run src (m * j) (source w)) \<and>
               (m = 0 \<or> jb = Some (Finite 0) \<or>
                (\<exists>keys blocks.
                   unjitteredGenerateNKeysBetween env a b (Finite (of_nat (Suc m))) dg = Inr keys \<and>
                   es = NKeysBetween a b (Finite (of_nat (Suc m))) dg # concat blocks \<and>
                   length blocks = m \<and>
                   (\<forall>t < m. \<exists>rest.
                      blocks ! t = KeyBetween (js_index keys (Finite (of_nat t)))
                                     (js_index keys (Finite (of_nat (Suc t)))) dg # rest \<and>
                      length (bits_of rest) = j)))))"
proof (rule conjI)
  note o = options_are_simps [OF assms(1)]
  have j: "opt_jitterBits opts = Finite (of_nat j)"
    using assms(2) by (simp add: o)
  have g: "opt_getRandomBit env opts = src"
    using assms(5) by (simp add: o)
  from generateKeyBetween_trace [OF j assms(3), of env a b w]
  show "\<exists>r w' rest. generateKeyBetween env a b opts w = Some (r, w') \<and>
            trace w' = trace w @ KeyBetween a b dg # rest \<and>
            (\<forall>k. r = Inr k \<longrightarrow>
               bits_of rest = fst (source_run src j (source w)) \<and>
               source w' = snd (source_run src j (source w)))"
    unfolding g o(1) by blast
next
  note o = options_are_simps [OF assms(1)]
  have j: "opt_jitterBits opts = Finite (of_nat j)"
    using assms(2) by (simp add: o)
  have g: "opt_getRandomBit env opts = src"
    using assms(5) by (simp add: o)
  have dg: "opt_digits opts = dg"
    by (rule o(1))
  have jb: "jitterBits (opts_or_empty opts) = jb"
    by (rule o(5))
  note u = generateNKeysBetween_unfold [OF assms(4), of env a b opts w, unfolded dg jb]
  let ?goal = "\<exists>r w' es. generateNKeysBetween env a b (Finite (of_nat m)) opts w = Some (r, w') \<and>
            trace w' = trace w @ es \<and>
            (\<forall>ks. r = Inr ks \<longrightarrow>
               bits_of es = fst (source_run src (m * j) (source w)) \<and>
               source w' = snd (source_run src (m * j) (source w)) \<and>
               (m = 0 \<or> jb = Some (Finite 0) \<or>
                (\<exists>keys blocks.
                   unjitteredGenerateNKeysBetween env a b (Finite (of_nat (Suc m))) dg = Inr keys \<and>
                   es = NKeysBetween a b (Finite (of_nat (Suc m))) dg # concat blocks \<and>
                   length blocks = m \<and>
                   (\<forall>t < m. \<exists>rest.
                      blocks ! t = KeyBetween (js_index keys (Finite (of_nat t)))
                                     (js_index keys (Finite (of_nat (Suc t)))) dg # rest \<and>
                      length (bits_of rest) = j))))"
  consider "m = 0" | "m \<noteq> 0" "jb = Some (Finite 0)" | "m \<noteq> 0" "jb \<noteq> Some (Finite 0)"
    by blast
  then show ?goal
  proof cases
    case 1
    have "generateNKeysBetween env a b (Finite (of_nat m)) opts w = Some (Inr [], w)"
      unfolding u using 1 by simp
    with 1 show ?thesis
      by (intro exI [of _ "Inr []"] exI [of _ w] exI [of _ "[]"]) simp
  next
    case 2
    with assms(2) have j0: "j = 0"
      by simp
    have "generateNKeysBetween env a b (Finite (of_nat m)) opts w =
            Some (call_nkeys env a b (Finite (of_nat m)) dg w)"
      unfolding u using 2 by simp
    with 2 j0 show ?thesis
      by (intro exI [of _ "fst (call_nkeys env a b (Finite (of_nat m)) dg w)"]
                exI [of _ "snd (call_nkeys env a b (Finite (of_nat m)) dg w)"]
                exI [of _ "[NKeysBetween a b (Finite (of_nat m)) dg]"])
         (simp add: call_nkeys_def)
  next
    case 3
    define w1 where "w1 = w\<lparr>trace := trace w @ [NKeysBetween a b (Finite (of_nat (Suc m))) dg]\<rparr>"
    have sw: "source w1 = source w"
      by (simp add: w1_def)
    show ?thesis
    proof (cases "unjitteredGenerateNKeysBetween env a b (Finite (of_nat (Suc m))) dg")
      case (Inl e)
      have "generateNKeysBetween env a b (Finite (of_nat m)) opts w = Some (Inl (External e), w1)"
        unfolding u using 3 Inl by (simp add: call_nkeys_def w1_def)
      then show ?thesis
        by (intro exI [of _ "Inl (External e)"] exI [of _ w1]
                  exI [of _ "[NKeysBetween a b (Finite (of_nat (Suc m))) dg]"])
           (simp add: w1_def)
    next
      case (Inr keys)
      have m': "m \<le> 2 ^ 53"
        using assms(4) by simp
      from for_loop_trace [OF j assms(3) m' refl, of 0 env keys "[]" w1, unfolded g dg sw]
      obtain r w' where
        l: "for_loop env keys (Finite (of_nat m)) opts (Finite 0) [] w1 = Some (r, w')"
           "\<exists>es. trace w' = trace w1 @ es"
           "\<forall>ks. r = Inr ks \<longrightarrow>
              (\<exists>blocks. length blocks = m \<and> trace w' = trace w1 @ concat blocks \<and>
                 (\<forall>t < m. \<exists>rest.
                    blocks ! t = KeyBetween (js_index keys (Finite (of_nat t)))
                                   (js_index keys (Finite (of_nat (Suc t)))) dg # rest \<and>
                    length (bits_of rest) = j) \<and>
                 bits_of (concat blocks) = fst (source_run src (m * j) (source w)) \<and>
                 source w' = snd (source_run src (m * j) (source w)))"
        by auto
      have gn: "generateNKeysBetween env a b (Finite (of_nat m)) opts w = Some (r, w')"
        unfolding u using 3 Inr l(1) by (simp add: call_nkeys_def w1_def)
      show ?thesis
      proof (cases r)
        case (Inl e)
        from l(2) obtain es where "trace w' = trace w1 @ es"
          by blast
        with Inl gn show ?thesis
          by (intro exI [of _ r] exI [of _ w']
                    exI [of _ "NKeysBetween a b (Finite (of_nat (Suc m))) dg # es"])
             (simp add: w1_def)
      next
        case r: (Inr ks)
        with l(3) obtain blocks where
          b: "length blocks = m" "trace w' = trace w1 @ concat blocks"
             "\<forall>t < m. \<exists>rest.
                blocks ! t = KeyBetween (js_index keys (Finite (of_nat t)))
                               (js_index keys (Finite (of_nat (Suc t)))) dg # rest \<and>
                length (bits_of rest) = j"
             "bits_of (concat blocks) = fst (source_run src (m * j) (source w))"
             "source w' = snd (source_run src (m * j) (source w))"
          by blast
        with Inr gn show ?thesis
          by (intro exI [of _ r] exI [of _ w']
                    exI [of _ "NKeysBetween a b (Finite (of_nat (Suc m))) dg # concat blocks"])
             (auto simp: w1_def)
      qed
    qed
  qed
qed


theorem entropy_accounting_witness:
  "(\<exists>k w' rest. generateKeyBetween bin_env (Some ''b'') (Some ''bb'') (ab_opts 2) world0
                   = Some (Inr k, w') \<and>
      trace w' = KeyBetween (Some ''b'') (Some ''bb'') (Some ''ab'') # rest \<and>
      bits_of rest = [False, True] \<and> source w' = 2) \<and>
   (\<exists>ks w' keys blocks.
      generateNKeysBetween bin_env (Some ''b'') (Some ''bb'') (Finite 3) (ab_opts 2) world0
        = Some (Inr ks, w') \<and>
      bits_of (trace w') = [False, True, False, True, False, True] \<and> source w' = 6 \<and>
      bin_nkeys (Some ''b'') (Some ''bb'') (Finite 4) (Some ''ab'') = Inr keys \<and>
      trace w' = NKeysBetween (Some ''b'') (Some ''bb'') (Finite 4) (Some ''ab'') # concat blocks \<and>
      length blocks = 3 \<and>
      (\<forall>t < 3. \<exists>rest.
         blocks ! t = KeyBetween (js_index keys (Finite (of_nat t)))
                        (js_index keys (Finite (of_nat (Suc t)))) (Some ''ab'') # rest \<and>
         length (bits_of rest) = 2))"
proof -
  note o = options_are_simps [OF ab_opts_are [of 2]]
  have j: "(case Some (Finite 2) of None \<Rightarrow> Finite 30 | Some x \<Rightarrow> x) = Finite (of_nat 2)"
      "(2::nat) \<le> 2 ^ 53" "(3::nat) < 2 ^ 53"
    by simp_all
  have src: "deterministicRandom =
      (case Some deterministicRandom of None \<Rightarrow> DEFAULT_GET_RANDOM_BIT bin_env | Some f \<Rightarrow> f)"
    by simp
  have c: "key_contract (bin_key (Some ''ab'')) (opt_digits (ab_opts 2))
             (unjitteredGenerateKeyBetween bin_env)"
    unfolding o by (simp add: bin_env_simps bin_key_contract alphabets)
  have bc: "batch_contract (bin_key (Some ''ab'')) (opt_digits (ab_opts 2))
              (unjitteredGenerateNKeysBetween bin_env)"
    unfolding o by (simp add: bin_env_simps bin_batch_contract alphabets)
  have v: "valid_bound (bin_key (Some ''ab'')) (Some ''b'')"
      "valid_bound (bin_key (Some ''ab'')) (Some ''bb'')" "ordered (Some ''b'') (Some ''bb'')"
    by (simp_all add: valid_bound_def bin_key_def alphabets ordered_def)
  have oj: "opt_jitterBits (ab_opts 2) = Finite (of_nat 2)"
    unfolding o by simp
  have r2: "source_run deterministicRandom 2 0 = ([False, True], 2)"
    by code_simp
  have r6: "source_run deterministicRandom 6 0 = ([False, True, False, True, False, True], 6)"
    by code_simp
  have nz: "Some (Finite 2) \<noteq> Some (Finite 0)" "(3::nat) \<noteq> 0"
    by simp_all
  note t = entropy_accounting [OF ab_opts_are j src, of "Some ''b''" "Some ''bb''" world0]
  from generateKeyBetween_ok [OF c v oj j(2), of world0] obtain k wk where
    k: "generateKeyBetween bin_env (Some ''b'') (Some ''bb'') (ab_opts 2) world0 = Some (Inr k, wk)"
    by blast
  from t [THEN conjunct1] k
  have A: "\<exists>k w' rest. generateKeyBetween bin_env (Some ''b'') (Some ''bb'') (ab_opts 2) world0
                   = Some (Inr k, w') \<and>
      trace w' = KeyBetween (Some ''b'') (Some ''bb'') (Some ''ab'') # rest \<and>
      bits_of rest = [False, True] \<and> source w' = 2"
    by (auto simp: world0_def r2)
  from generateNKeysBetween_ok [OF c bc v oj j(2,3), of world0] obtain ks wn where
    n: "generateNKeysBetween bin_env (Some ''b'') (Some ''bb'') (Finite 3) (ab_opts 2) world0
          = Some (Inr ks, wn)"
    by auto
  from t [THEN conjunct2] n nz
  have B: "\<exists>ks w' keys blocks.
      generateNKeysBetween bin_env (Some ''b'') (Some ''bb'') (Finite 3) (ab_opts 2) world0
        = Some (Inr ks, w') \<and>
      bits_of (trace w') = [False, True, False, True, False, True] \<and> source w' = 6 \<and>
      bin_nkeys (Some ''b'') (Some ''bb'') (Finite 4) (Some ''ab'') = Inr keys \<and>
      trace w' = NKeysBetween (Some ''b'') (Some ''bb'') (Finite 4) (Some ''ab'') # concat blocks \<and>
      length blocks = 3 \<and>
      (\<forall>t < 3. \<exists>rest.
         blocks ! t = KeyBetween (js_index keys (Finite (of_nat t)))
                        (js_index keys (Finite (of_nat (Suc t)))) (Some ''ab'') # rest \<and>
         length (bits_of rest) = 2)"
    by (auto simp: world0_def bin_env_simps r6 simp del: of_nat_Suc)
  from A B show ?thesis
    by (rule conjI)
qed



text \<open>
  Claim C6. Let the caller give \<open>jitterBits\<close> as \<open>0\<close>, with the alphabet \<open>dg\<close> (given or not).
  Then \<open>generateKeyBetween\<close> returns what one call of the unjittered primitive returns
  (or throws) on the bounds and \<open>dg\<close>, and that call is the only event: no bit is drawn.
  So a second call with the same bounds and alphabet, in whatever world and with whatever
  source, returns the same key.
\<close>

theorem zero_jitter_is_unjittered:
  assumes "options_are opts dg (Some (Finite 0)) g"
      and "options_are opts' dg (Some (Finite 0)) g'"
  shows "generateKeyBetween env a b opts w =
           Some (map_sum External id (unjitteredGenerateKeyBetween env a b dg),
                 w\<lparr>trace := trace w @ [KeyBetween a b dg]\<rparr>) \<and>
         map_option fst (generateKeyBetween env a b opts' w') =
           map_option fst (generateKeyBetween env a b opts w)"
proof -
  have "generateKeyBetween env a b x v =
           Some (map_sum External id (unjitteredGenerateKeyBetween env a b dg),
                 v\<lparr>trace := trace v @ [KeyBetween a b dg]\<rparr>)"
    if "options_are x dg (Some (Finite 0)) h" for x v h
  proof -
    from options_are_simps(1,2) [OF that]
    have o: "opt_digits x = dg" "opt_jitterBits x = Finite 0"
      by simp_all
    show ?thesis
      by (cases "unjitteredGenerateKeyBetween env a b dg")
         (simp_all add: generateKeyBetween_def assertIsPositiveInteger_def call_key_def
            while_loop_stop Let_def o)
  qed
  from this [OF assms(1)] this [OF assms(2)] show ?thesis
    by simp
qed

theorem zero_jitter_is_unjittered_witness:
  "generateKeyBetween bin_env (Some ''b'') (Some ''bb'') (ab_opts 0) world0 =
     Some (Inr ''baab'',
           \<lparr>source = 0, trace = [KeyBetween (Some ''b'') (Some ''bb'') (Some ''ab'')]\<rparr>) \<and>
   map_option fst (generateKeyBetween bin_env (Some ''b'') (Some ''bb'')
                     (Some \<lparr>digits = Some ''ab'', jitterBits = Some (Finite 0),
                            getRandomBit = None\<rparr>)
                     \<lparr>source = 5, trace = [RandomBit True]\<rparr>) =
     map_option fst (generateKeyBetween bin_env (Some ''b'') (Some ''bb'') (ab_opts 0) world0)"
proof -
  have o: "options_are (Some \<lparr>digits = Some ''ab'', jitterBits = Some (Finite 0),
                               getRandomBit = None :: (nat \<Rightarrow> bool \<times> nat) option\<rparr>)
             (Some ''ab'') (Some (Finite 0)) None"
    by (simp add: options_are_def)
  have k: "unjitteredGenerateKeyBetween bin_env (Some ''b'') (Some ''bb'') (Some ''ab'')
             = Inr ''baab''"
    by (simp add: bin_env_simps bin_between_def alphabets)
  from zero_jitter_is_unjittered [OF ab_opts_are o, of bin_env "Some ''b''" "Some ''bb''" world0
      "\<lparr>source = 5, trace = [RandomBit True]\<rparr>"]
  show ?thesis
    by (simp add: k world0_def)
qed

text \<open>
  Claim C7, as stated, fails: with \<open>jitterBits = 2 ^ 53 + 4\<close>, a non-negative integer, the
  loop does not run \<open>jitterBits\<close> iterations and return a midpoint: the counter rounds back
  at every decrement and, the primitive meeting its contract, the call never returns.
\<close>

theorem narrowing_follows_the_bits_counterexample:
  "isInteger (Finite (2 ^ 53 + 4)) \<and> \<not> js_less (Finite (2 ^ 53 + 4)) (Finite 0) \<and>
   js_add (Finite (2 ^ 53 + 4)) (- 1) = Finite (2 ^ 53 + 4) \<and>
   generateKeyBetween bin_env (Some ''b'') None (ab_opts (2 ^ 53 + 4)) world0 = None"
proof -
  define K :: rat where "K = 2 ^ 53 + 4"
  note o = options_are_simps [OF ab_opts_are [of K]]
  have c: "key_contract (bin_key (Some ''ab'')) (opt_digits (ab_opts K))
             (unjitteredGenerateKeyBetween bin_env)"
    unfolding o by (simp add: bin_env_simps bin_key_contract alphabets)
  have v: "valid_bound (bin_key (Some ''ab'')) (Some ''b'')"
      "valid_bound (bin_key (Some ''ab'')) None" "ordered (Some ''b'') None"
    by (simp_all add: valid_bound_def bin_key_def alphabets ordered_def)
  have j: "opt_jitterBits (ab_opts K) = Finite K"
    unfolding o by simp
  have k: "isInteger (Finite K)" "0 < K" "js_add (Finite K) (- 1) = Finite K"
    unfolding K_def using js_add_rounds(1) by simp_all
  have "generateKeyBetween bin_env (Some ''b'') None (ab_opts K) world0 = None"
    using c v j k by (rule generateKeyBetween_stuck)
  then show ?thesis
    using k unfolding K_def by simp
qed

text \<open>
  Claim C7, amended: for \<open>jitterBits\<close> a non-negative integer up to \<open>2 ^ 53\<close>. One iteration
  of the loop draws a bit; on \<open>true\<close> the lower bound becomes the current midpoint, on
  \<open>false\<close> the upper bound does; the midpoint is then recomputed by one call of the
  primitive on the new interval, and the counter is decremented. With the number of bits
  in effect an integer \<open>j\<close> with \<open>0 \<le> j \<le> 2 ^ 53\<close>, \<open>generateKeyBetween\<close> is the first call
  of the primitive followed by the narrowing of the specification, with the caller's
  alphabet and source (the default source when none is given): exactly \<open>j\<close> such
  iterations, returning the midpoint of the last one.
\<close>

theorem narrowing_follows_the_bits:
  assumes "options_are opts dg jb g"
      and "(case jb of None \<Rightarrow> Finite 30 | Some x \<Rightarrow> x) = Finite (of_nat j)" and "j \<le> 2 ^ 53"
  shows "loop_body env src d s v =
           (case draw src v of
              (drawn, w1) \<Rightarrow>
                (case call_key env (if drawn then Some (midpoint s) else low s)
                        (if drawn then high s else Some (midpoint s)) d w1 of
                   (Inl e, w2) \<Rightarrow> (Inl e, w2)
                 | (Inr k, w2) \<Rightarrow>
                     (Inr \<lparr>remainingJitterBits = js_add (remainingJitterBits s) (- 1),
                           low = (if drawn then Some (midpoint s) else low s),
                           high = (if drawn then high s else Some (midpoint s)),
                           midpoint = k\<rparr>, w2))) \<and>
         generateKeyBetween env a b opts w =
           Some (case call_key env a b dg w of
                   (Inl e, w1) \<Rightarrow> (Inl e, w1)
                 | (Inr m, w1) \<Rightarrow>
                     spec_narrow env
                       (case g of None \<Rightarrow> DEFAULT_GET_RANDOM_BIT env | Some f \<Rightarrow> f) dg j a b m w1)"
proof -
  note o = options_are_simps [OF assms(1)]
  have j: "opt_jitterBits opts = Finite (of_nat j)"
    using assms(2) by (simp add: o)
  from generateKeyBetween_spec [OF j assms(3), of env a b w]
    loop_body_fields [of env src d "remainingJitterBits s" "low s" "high s" "midpoint s" v]
  show ?thesis
    unfolding o by (cases s) simp
qed


theorem narrowing_follows_the_bits_witness:
  "loop_body bin_env deterministicRandom (Some ''ab'')
     \<lparr>remainingJitterBits = Finite 2, low = Some ''b'', high = Some ''bb'', midpoint = ''baab''\<rparr>
     \<lparr>source = 0, trace = [KeyBetween (Some ''b'') (Some ''bb'') (Some ''ab'')]\<rparr> =
     (Inr \<lparr>remainingJitterBits = Finite 1, low = Some ''b'', high = Some ''baab'',
           midpoint = ''baaaab''\<rparr>,
      \<lparr>source = 1,
        trace = [KeyBetween (Some ''b'') (Some ''bb'') (Some ''ab''), RandomBit False,
                 KeyBetween (Some ''b'') (Some ''baab'') (Some ''ab'')]\<rparr>) \<and>
   generateKeyBetween bin_env (Some ''b'') (Some ''bb'') (ab_opts 2) world0 =
     Some (Inr ''baaaabaaaab'',
           \<lparr>source = 2,
             trace = [KeyBetween (Some ''b'') (Some ''bb'') (Some ''ab''), RandomBit False,
                      KeyBetween (Some ''b'') (Some ''baab'') (Some ''ab''), RandomBit True,
                      KeyBetween (Some ''baaaab'') (Some ''baab'') (Some ''ab'')]\<rparr>)"
proof -
  have j: "(case Some (Finite 2) of None \<Rightarrow> Finite 30 | Some x \<Rightarrow> x) = Finite (of_nat 2)"
      "(2::nat) \<le> 2 ^ 53"
    by simp_all
  have c: "call_key bin_env (Some ''b'') (Some ''bb'') (Some ''ab'') world0 =
             (Inr ''baab'',
              \<lparr>source = 0, trace = [KeyBetween (Some ''b'') (Some ''bb'') (Some ''ab'')]\<rparr>)"
    by code_simp
  have d: "draw deterministicRandom
             \<lparr>source = 0, trace = [KeyBetween (Some ''b'') (Some ''bb'') (Some ''ab'')]\<rparr>
             = (False, \<lparr>source = 1, trace = [KeyBetween (Some ''b'') (Some ''bb'') (Some ''ab''),
                                               RandomBit False]\<rparr>)"
    by code_simp
  have c1: "call_key bin_env (Some ''b'') (Some ''baab'') (Some ''ab'')
              \<lparr>source = 1, trace = [KeyBetween (Some ''b'') (Some ''bb'') (Some ''ab''),
                                     RandomBit False]\<rparr> =
            (Inr ''baaaab'',
             \<lparr>source = 1, trace = [KeyBetween (Some ''b'') (Some ''bb'') (Some ''ab''),
                 RandomBit False, KeyBetween (Some ''b'') (Some ''baab'') (Some ''ab'')]\<rparr>)"
    by code_simp
  have n: "spec_narrow bin_env deterministicRandom (Some ''ab'') 2 (Some ''b'') (Some ''bb'')
             ''baab'' \<lparr>source = 0, trace = [KeyBetween (Some ''b'') (Some ''bb'') (Some ''ab'')]\<rparr> =
           (Inr ''baaaabaaaab'',
            \<lparr>source = 2,
              trace = [KeyBetween (Some ''b'') (Some ''bb'') (Some ''ab''), RandomBit False,
                       KeyBetween (Some ''b'') (Some ''baab'') (Some ''ab''), RandomBit True,
                       KeyBetween (Some ''baaaab'') (Some ''baab'') (Some ''ab'')]\<rparr>)"
    by code_simp
  have dec: "js_add (Finite 2) (- 1) = Finite 1"
    using js_add_dec [of 1] by simp
  from narrowing_follows_the_bits [OF ab_opts_are j, of bin_env deterministicRandom "Some ''ab''"
      "\<lparr>remainingJitterBits = Finite 2, low = Some ''b'', high = Some ''bb'',
        midpoint = ''baab''\<rparr>"
      "\<lparr>source = 0, trace = [KeyBetween (Some ''b'') (Some ''bb'') (Some ''ab'')]\<rparr>"
      "Some ''b''" "Some ''bb''" world0]
  show ?thesis
    by (simp add: c d c1 n dec del: One_nat_def js_add.simps)
qed

text \<open>
  Claim C8. With \<open>n = 0\<close>, whatever the bounds and the options, \<open>generateNKeysBetween\<close>
  returns the empty sequence and leaves the world as it was: no primitive is called and no
  bit drawn.
\<close>

theorem zero_keys_is_empty:
  "generateNKeysBetween env a b (Finite 0) opts w = Some (Inr [], w)"
  by (simp add: generateNKeysBetween_def assertIsPositiveInteger_def js_strict_eq_def)

text \<open>
  Claim C9. Let the primitive meet its contract, and let the loop start from bounds that
  are absent or keys the primitive accepts, in order, with the midpoint the primitive
  returned for them. In every state at the head of the loop the working lower bound is at
  or above the original one, the working upper bound at or below the original one, and the
  midpoint strictly between the working bounds; and an iteration from that state does not
  throw, does not lower the lower bound, does not raise the upper bound, and leaves a
  midpoint strictly between the new bounds.
\<close>

theorem working_interval_stays_nested:
  assumes "key_contract V dg (unjitteredGenerateKeyBetween env)"
      and "valid_bound V a" and "valid_bound V b" and "ordered a b"
      and "unjitteredGenerateKeyBetween env a b dg = Inr m0"
      and "loop_reaches env g dg
             \<lparr>remainingJitterBits = jb, low = a, high = b, midpoint = m0\<rparr> w0 s w"
  shows "lower_le a (low s) \<and> upper_le (high s) b \<and> between (low s) (midpoint s) (high s) \<and>
         (\<exists>s' w'. loop_body env g dg s w = (Inr s', w') \<and>
            lower_le (low s) (low s') \<and> upper_le (high s') (high s) \<and>
            between (low s') (midpoint s') (high s'))"
proof -
  from assms(1-4) obtain k where
    "unjitteredGenerateKeyBetween env a b dg = Inr k" "V k" "between a k b"
    unfolding key_contract_def by blast
  with assms(2,3,5)
  have i0: "interval_ok V \<lparr>remainingJitterBits = jb, low = a, high = b, midpoint = m0\<rparr>"
    by (simp add: interval_ok_def)
  from loop_reaches_ok [OF assms(1) i0 assms(6)]
  have i: "interval_ok V s" "lower_le a (low s)" "upper_le (high s) b"
    by simp_all
  from loop_body_ok [OF assms(1) i(1), of g w] i show ?thesis
    by (auto simp: interval_ok_def)
qed

theorem working_interval_stays_nested_witness:
  "lower_le (Some ''1'') (Some ''1'') \<and> upper_le (Some ''1001'') (Some ''11'') \<and>
   between (Some ''1'') ''100001'' (Some ''1001'') \<and>
   (\<exists>s' w'. loop_body bin_env deterministicRandom None
              \<lparr>remainingJitterBits = Finite 1, low = Some ''1'', high = Some ''1001'',
                midpoint = ''100001''\<rparr>
              \<lparr>source = 1,
                trace = [KeyBetween (Some ''1'') (Some ''11'') None, RandomBit False,
                         KeyBetween (Some ''1'') (Some ''1001'') None]\<rparr> = (Inr s', w') \<and>
            lower_le (Some ''1'') (low s') \<and> upper_le (high s') (Some ''1001'') \<and>
            between (low s') (midpoint s') (high s'))"
proof -
  let ?s0 = "\<lparr>remainingJitterBits = Finite 2, low = Some ''1'', high = Some ''11'',
              midpoint = ''1001''\<rparr>"
  let ?w0 = "\<lparr>source = 0 :: nat, trace = [KeyBetween (Some ''1'') (Some ''11'') None]\<rparr>"
  let ?s1 = "\<lparr>remainingJitterBits = Finite 1, low = Some ''1'', high = Some ''1001'',
              midpoint = ''100001''\<rparr>"
  let ?w1 = "\<lparr>source = 1 :: nat,
              trace = [KeyBetween (Some ''1'') (Some ''11'') None, RandomBit False,
                       KeyBetween (Some ''1'') (Some ''1001'') None]\<rparr>"
  have c: "key_contract (bin_key None) None (unjitteredGenerateKeyBetween bin_env)"
    by (simp add: bin_env_simps bin_key_contract alphabets)
  have v: "valid_bound (bin_key None) (Some ''1'')" "valid_bound (bin_key None) (Some ''11'')"
      "ordered (Some ''1'') (Some ''11'')"
    by (simp_all add: valid_bound_def bin_key_def alphabets ordered_def)
  have m0: "unjitteredGenerateKeyBetween bin_env (Some ''1'') (Some ''11'') None = Inr ''1001''"
    by (simp add: bin_env_simps bin_between_def alphabets)
  have gt: "js_less (Finite 0) (remainingJitterBits ?s0)"
    by simp
  have d: "draw deterministicRandom ?w0 =
             (False, \<lparr>source = 1, trace = [KeyBetween (Some ''1'') (Some ''11'') None,
                                             RandomBit False]\<rparr>)"
    by code_simp
  have k: "call_key bin_env (Some ''1'') (Some ''1001'') None
             \<lparr>source = 1, trace = [KeyBetween (Some ''1'') (Some ''11'') None, RandomBit False]\<rparr>
             = (Inr ''100001'', ?w1)"
    by code_simp
  have dec: "js_add (Finite 2) (- 1) = Finite 1"
    using js_add_dec [of 1] by simp
  have b: "loop_body bin_env deterministicRandom None ?s0 ?w0 = (Inr ?s1, ?w1)"
    unfolding loop_body_fields d by (simp add: k dec del: One_nat_def js_add.simps)
  have r: "loop_reaches bin_env deterministicRandom None ?s0 ?w0 ?s1 ?w1"
    by (rule loop_reaches.iteration [OF loop_reaches.start gt b])
  from working_interval_stays_nested [OF c v m0 r] show ?thesis
    by simp
qed

text \<open>
  Claim C10. On every value that is not an integer, also a negative one such as \<open>-1.5\<close>,
  the validator throws the must-be-an-integer message, which is not the
  must-be-greater-than-or-equal-to-0 message: integrality is checked first.
\<close>

theorem validator_checks_integrality_first:
  assumes "\<not> isInteger n"
  shows "(assertIsPositiveInteger str p n :: 'e thrown + unit)
           = Inl (Error (integer_message str p n)) \<and>
         (assertIsPositiveInteger str p n :: 'e thrown + unit)
           \<noteq> Inl (Error (negative_message str p n))"
  using assms by (simp add: assertIsPositiveInteger_def messages_differ)

theorem validator_checks_integrality_first_witness:
  "\<not> isInteger (Finite (- 3 / 2)) \<and> js_less (Finite (- 3 / 2)) (Finite 0) \<and>
   (assertIsPositiveInteger print_number ''jitterBits'' (Finite (- 3 / 2)) :: unit thrown + unit)
     = Inl (Error ([CHR 0x22] @ ''jitterBits'' @ [CHR 0x22] @ '' must be an integer, got '' @
                   [CHR 0x27] @ ''-1.5'' @ [CHR 0x27])) \<and>
   (assertIsPositiveInteger print_number ''jitterBits'' (Finite (- 3 / 2)) :: unit thrown + unit)
     \<noteq> Inl (Error (negative_message print_number ''jitterBits'' (Finite (- 3 / 2))))"
proof -
  have h: "\<not> isInteger (Finite (- 3 / 2))"
    by (rule fractions_not_integer)
  have n: "js_less (Finite (- 3 / 2)) (Finite 0)"
    by simp
  have p: "integer_message print_number ''jitterBits'' (Finite (- 3 / 2)) =
           [CHR 0x22] @ ''jitterBits'' @ [CHR 0x22] @ '' must be an integer, got '' @
           [CHR 0x27] @ ''-1.5'' @ [CHR 0x27]"
    by (simp add: integer_message_def print_number_def)
  from validator_checks_integrality_first [OF h, of print_number "''jitterBits''", where ?'e = unit]
    h n
  show ?thesis
    unfolding p by blast
qed

end
